theory Spec2Isabelle
  imports Main "HOL-Library.Word"
begin

section \<open>Shared ring buffer (src/Driver/SharedMemory.hpp)\<close>

text \<open>
  The embedding is sequential: every atomic load and store of the source is an ordinary
  field access, so memory ordering between the two processes is outside the model.
  A \<^verbatim>\<open>float\<close> is its 32-bit pattern; \<^verbatim>\<open>0.0f\<close> is the all-zero pattern, which is also
  what \<^verbatim>\<open>memset(p, 0, n)\<close> stores. \<^verbatim>\<open>uint64_t\<close> and \<^verbatim>\<open>size_t\<close> are 64-bit words and
  \<^verbatim>\<open>uint32_t\<close> is a 32-bit word, with the wrap-around of the C++ unsigned types.
\<close>

type_synonym sample = "32 word"

definition kRingBufferFrames :: "64 word" where
  "kRingBufferFrames = 4096"

definition kChannels :: "64 word" where
  "kChannels = 2"

definition kSampleRate :: "64 word" where
  "kSampleRate = 48000"

record SharedAudioBuffer =
  writeIndex :: "64 word"
  readIndex :: "64 word"
  isActive :: bool
  sampleRate :: "32 word"
  channels :: "32 word"
  bufferFrames :: "32 word"
  audioData :: "sample list"

text \<open>
  An access outside an array is undefined behaviour in the source. The model stops
  there with a fault that names the array, so that every theorem about a returned
  value is about an execution free of such accesses.
\<close>

datatype fault = AudioDataOutOfBounds | SamplesOutOfBounds | InvalidPointer

definition availableToRead :: "SharedAudioBuffer \<Rightarrow> 64 word" where
  "availableToRead s = (let write = writeIndex s; read = readIndex s in write - read)"

definition availableToWrite :: "SharedAudioBuffer \<Rightarrow> 64 word" where
  "availableToWrite s =
     (let write = writeIndex s; read = readIndex s in kRingBufferFrames - (write - read))"

text \<open>
  A loop counter that is still below its bound does not wrap when it is incremented;
  the termination proofs of the loops below rest on this.
\<close>

lemma unat_word_succ: "i < n \<Longrightarrow> unat (i + 1) = Suc (unat i)"
  for i n :: "'a::len word"
  by unat_arith

text \<open>
  The inner loop of \<^verbatim>\<open>write\<close>: \<^verbatim>\<open>for (uint32_t ch = 0; ch < channels; ch++)
  audioData[index * channels + ch] = samples[i * channels + ch];\<close>
  The right operand of an assignment is evaluated first, so the source array is read
  before the element of \<^verbatim>\<open>audioData\<close> is designated. Both subscripts are computed in
  64 bits, \<^verbatim>\<open>channels\<close> and \<^verbatim>\<open>ch\<close> being converted from 32.
\<close>

function write_channels ::
  "sample list \<Rightarrow> sample list \<Rightarrow> 64 word \<Rightarrow> 64 word \<Rightarrow> 32 word \<Rightarrow> 32 word \<Rightarrow> fault + sample list"
where
  "write_channels ad samples index i chs ch =
     (if ch < chs then
        (let dst = unat (index * ucast chs + ucast ch);
             src = unat (i * ucast chs + ucast ch)
         in if length samples \<le> src then Inl SamplesOutOfBounds
            else if length ad \<le> dst then Inl AudioDataOutOfBounds
            else write_channels (ad[dst := samples ! src]) samples index i chs (ch + 1))
      else Inr ad)"
  by pat_completeness auto
termination
  by (relation "measure (\<lambda>(ad, samples, index, i, chs, ch). unat chs - unat ch)")
     (auto simp: word_less_nat_alt unat_word_succ)

text \<open>
  The outer loop of \<^verbatim>\<open>write\<close>: \<^verbatim>\<open>for (uint64_t i = 0; i < frameCount; i++)\<close> with
  \<^verbatim>\<open>index = (writePos + i) % kRingBufferFrames\<close>.
\<close>

function write_frames ::
  "sample list \<Rightarrow> sample list \<Rightarrow> 64 word \<Rightarrow> 64 word \<Rightarrow> 32 word \<Rightarrow> 64 word \<Rightarrow> fault + sample list"
where
  "write_frames ad samples writePos frameCount chs i =
     (if i < frameCount then
        (case write_channels ad samples ((writePos + i) mod kRingBufferFrames) i chs 0 of
           Inl e \<Rightarrow> Inl e
         | Inr ad' \<Rightarrow> write_frames ad' samples writePos frameCount chs (i + 1))
      else Inr ad)"
  by pat_completeness auto
termination
  by (relation "measure (\<lambda>(ad, samples, writePos, frameCount, chs, i). unat frameCount - unat i)")
     (auto simp: word_less_nat_alt unat_word_succ)

text \<open>
  \<^verbatim>\<open>SharedAudioBuffer::write\<close>. The word \<open>write\<close> is reserved here, so the function is
  \<open>write_sab\<close>. It returns its flag and the buffer.
\<close>

definition write_sab ::
  "SharedAudioBuffer \<Rightarrow> sample list \<Rightarrow> 64 word \<Rightarrow> fault + (bool \<times> SharedAudioBuffer)"
where
  "write_sab s samples frameCount =
     (if availableToWrite s < frameCount then Inr (False, s)
      else
        (let writePos = writeIndex s in
         case write_frames (audioData s) samples writePos frameCount (channels s) 0 of
           Inl e \<Rightarrow> Inl e
         | Inr ad' \<Rightarrow> Inr (True, s\<lparr>audioData := ad', writeIndex := writePos + frameCount\<rparr>)))"

text \<open>
  The silence loop of \<^verbatim>\<open>read\<close>: \<^verbatim>\<open>for (uint64_t i = 0; i < frameCount * channels; i++)
  samples[i] = 0.0f;\<close> The bound is computed once in 64-bit arithmetic.
\<close>

function zero_fill :: "sample list \<Rightarrow> 64 word \<Rightarrow> 64 word \<Rightarrow> fault + sample list" where
  "zero_fill samples bound i =
     (if i < bound then
        (if length samples \<le> unat i then Inl SamplesOutOfBounds
         else zero_fill (samples[unat i := 0]) bound (i + 1))
      else Inr samples)"
  by pat_completeness auto
termination
  by (relation "measure (\<lambda>(samples, bound, i). unat bound - unat i)")
     (auto simp: word_less_nat_alt unat_word_succ)

text \<open>
  The copy loops of \<^verbatim>\<open>read\<close>:
  \<^verbatim>\<open>samples[i * channels + ch] = audioData[index * channels + ch];\<close>
\<close>

function read_channels ::
  "sample list \<Rightarrow> sample list \<Rightarrow> 64 word \<Rightarrow> 64 word \<Rightarrow> 32 word \<Rightarrow> 32 word \<Rightarrow> fault + sample list"
where
  "read_channels samples ad index i chs ch =
     (if ch < chs then
        (let dst = unat (i * ucast chs + ucast ch);
             src = unat (index * ucast chs + ucast ch)
         in if length ad \<le> src then Inl AudioDataOutOfBounds
            else if length samples \<le> dst then Inl SamplesOutOfBounds
            else read_channels (samples[dst := ad ! src]) ad index i chs (ch + 1))
      else Inr samples)"
  by pat_completeness auto
termination
  by (relation "measure (\<lambda>(samples, ad, index, i, chs, ch). unat chs - unat ch)")
     (auto simp: word_less_nat_alt unat_word_succ)

function read_frames ::
  "sample list \<Rightarrow> sample list \<Rightarrow> 64 word \<Rightarrow> 64 word \<Rightarrow> 32 word \<Rightarrow> 64 word \<Rightarrow> fault + sample list"
where
  "read_frames samples ad readPos frameCount chs i =
     (if i < frameCount then
        (case read_channels samples ad ((readPos + i) mod kRingBufferFrames) i chs 0 of
           Inl e \<Rightarrow> Inl e
         | Inr samples' \<Rightarrow> read_frames samples' ad readPos frameCount chs (i + 1))
      else Inr samples)"
  by pat_completeness auto
termination
  by (relation "measure (\<lambda>(samples, ad, readPos, frameCount, chs, i). unat frameCount - unat i)")
     (auto simp: word_less_nat_alt unat_word_succ)

text \<open>
  The loops are unfolded by hand in the proofs below, one iteration at a time.
\<close>

declare write_channels.simps [simp del] write_frames.simps [simp del] zero_fill.simps [simp del]
  read_channels.simps [simp del] read_frames.simps [simp del]

text \<open>
  \<^verbatim>\<open>read\<close> returns its flag, the destination as it leaves it, and the buffer.
\<close>

definition read ::
  "SharedAudioBuffer \<Rightarrow> sample list \<Rightarrow> 64 word \<Rightarrow>
     fault + (bool \<times> sample list \<times> SharedAudioBuffer)"
where
  "read s samples frameCount =
     (if availableToRead s < frameCount then
        (case zero_fill samples (frameCount * ucast (channels s)) 0 of
           Inl e \<Rightarrow> Inl e
         | Inr samples' \<Rightarrow> Inr (False, samples', s))
      else
        (let readPos = readIndex s in
         case read_frames samples (audioData s) readPos frameCount (channels s) 0 of
           Inl e \<Rightarrow> Inl e
         | Inr samples' \<Rightarrow> Inr (True, samples', s\<lparr>readIndex := readPos + frameCount\<rparr>)))"

text \<open>
  The default member initialisers of the struct give every header field its value and
  leave the sample array as it is found; the storage found is a parameter.
\<close>

definition SharedAudioBuffer_init :: "sample list \<Rightarrow> SharedAudioBuffer" where
  "SharedAudioBuffer_init storage =
     \<lparr>writeIndex = 0, readIndex = 0, isActive = False, sampleRate = ucast kSampleRate,
      channels = ucast kChannels, bufferFrames = ucast kRingBufferFrames,
      audioData = storage\<rparr>"

text \<open>
  The layout the struct declares: \<^verbatim>\<open>float audioData[kRingBufferFrames * kChannels]\<close>, and
  a \<^verbatim>\<open>channels\<close> field that still holds its initialiser \<^verbatim>\<open>kChannels\<close>.
\<close>

definition layout_ok :: "SharedAudioBuffer \<Rightarrow> bool" where
  "layout_ok s \<longleftrightarrow>
     channels s = ucast kChannels \<and> length (audioData s) = unat (kRingBufferFrames * kChannels)"

text \<open>
  The state invariant of the ring: the declared layout, and no more frames unread than
  the capacity. The difference of the counters is taken in 64-bit arithmetic, as
  \<^verbatim>\<open>availableToRead\<close> takes it.
\<close>

definition ring_inv :: "SharedAudioBuffer \<Rightarrow> bool" where
  "ring_inv s \<longleftrightarrow> layout_ok s \<and> availableToRead s \<le> kRingBufferFrames"

subsection \<open>Reading the stored frames off a state\<close>

text \<open>
  \<open>frame_sample ad pos j\<close> is interleaved sample \<open>j\<close> of the stereo frames stored from
  frame counter \<open>pos\<close> on, found at the slot the source computes for that counter.
  \<open>pending s\<close> lists the samples written and not yet read, oldest first.
\<close>

definition frame_sample :: "sample list \<Rightarrow> 64 word \<Rightarrow> nat \<Rightarrow> sample" where
  "frame_sample ad pos j =
     ad ! (unat ((pos + of_nat (j div 2)) mod kRingBufferFrames) * 2 + j mod 2)"

definition pending :: "SharedAudioBuffer \<Rightarrow> sample list" where
  "pending s =
     map (frame_sample (audioData s) (readIndex s)) [0..<unat (availableToRead s) * 2]"

subsection \<open>Sequences of calls\<close>

text \<open>
  A caller hands \<^verbatim>\<open>write\<close> and \<^verbatim>\<open>read\<close> a sample array and a frame count. A run
  performs the calls in order on one buffer and records each call with what it
  returned; for a read that is the flag and the destination array after the call.
\<close>

datatype call = Write "sample list" "64 word" | Read "sample list" "64 word"

datatype ret = WriteRet bool | ReadRet bool "sample list"

fun step :: "SharedAudioBuffer \<Rightarrow> call \<Rightarrow> fault + (ret \<times> SharedAudioBuffer)" where
  "step s (Write samples frameCount) =
     (case write_sab s samples frameCount of
        Inl e \<Rightarrow> Inl e
      | Inr (ok, s') \<Rightarrow> Inr (WriteRet ok, s'))"
| "step s (Read samples frameCount) =
     (case read s samples frameCount of
        Inl e \<Rightarrow> Inl e
      | Inr (ok, samples', s') \<Rightarrow> Inr (ReadRet ok samples', s'))"

fun run :: "SharedAudioBuffer \<Rightarrow> call list \<Rightarrow> fault + ((call \<times> ret) list \<times> SharedAudioBuffer)" where
  "run s [] = Inr ([], s)"
| "run s (c # cs) =
     (case step s c of
        Inl e \<Rightarrow> Inl e
      | Inr (r, s') \<Rightarrow>
          (case run s' cs of
             Inl e \<Rightarrow> Inl e
           | Inr (tr, s'') \<Rightarrow> Inr ((c, r) # tr, s'')))"

text \<open>
  What a trace shows: the samples that accepted writes took in, the samples that
  successful reads handed out, and the number of frames accepted, each in call order.
\<close>

fun written :: "(call \<times> ret) list \<Rightarrow> sample list" where
  "written [] = []"
| "written ((Write samples frameCount, WriteRet True) # tr) =
     take (unat frameCount * 2) samples @ written tr"
| "written (_ # tr) = written tr"

fun delivered :: "(call \<times> ret) list \<Rightarrow> sample list" where
  "delivered [] = []"
| "delivered ((Read _ frameCount, ReadRet True samples') # tr) =
     take (unat frameCount * 2) samples' @ delivered tr"
| "delivered (_ # tr) = delivered tr"

fun frames_written :: "(call \<times> ret) list \<Rightarrow> nat" where
  "frames_written [] = 0"
| "frames_written ((Write _ frameCount, WriteRet True) # tr) =
     unat frameCount + frames_written tr"
| "frames_written (_ # tr) = frames_written tr"

text \<open>
  The caller's side of the contract: the array passed holds \<open>frameCount\<close> stereo frames,
  and a destination is an array of a 64-bit address space.
\<close>

fun buffer_ok :: "call \<Rightarrow> bool" where
  "buffer_ok (Write samples frameCount) \<longleftrightarrow> unat frameCount * 2 \<le> length samples"
| "buffer_ok (Read samples frameCount) \<longleftrightarrow>
     unat frameCount * 2 \<le> length samples \<and> length samples < 2 ^ 64"

definition indices_after :: "SharedAudioBuffer \<Rightarrow> call list \<Rightarrow> (64 word \<times> 64 word) option" where
  "indices_after s calls =
     (case run s calls of
        Inl e \<Rightarrow> None
      | Inr (tr, s') \<Rightarrow> Some (writeIndex s', readIndex s'))"

section \<open>Connection manager and consumer callback (src/Driver/Driver.cpp)\<close>

definition ChannelCount :: "32 word" where
  "ChannelCount = 2"

text \<open>
  \<^verbatim>\<open>buffer_\<close> is a null pointer, the value \<^verbatim>\<open>MAP_FAILED\<close>, or the address of a mapping.
\<close>

datatype pointer = nullptr | MAP_FAILED | Mapped nat

text \<open>
  The members \<^verbatim>\<open>fd_\<close> and \<^verbatim>\<open>buffer_\<close> of the reader; a name cannot end in an underscore
  here, so they are \<open>fd_field\<close> and \<open>buffer_field\<close>.
\<close>

record SharedMemoryReader =
  fd_field :: int
  buffer_field :: pointer

text \<open>
  The operating system is a parameter. \<open>shm_open_ret\<close> is what the next
  \<^verbatim>\<open>shm_open\<close> returns, \<open>-1\<close> or a descriptor; \<open>mmap_ret\<close> is what the next \<^verbatim>\<open>mmap\<close>
  of that descriptor returns, \<^verbatim>\<open>MAP_FAILED\<close> or the address of the mapping (\<^verbatim>\<open>mmap\<close> does
  not return a null pointer). The descriptors the process holds open are a list:
  \<^verbatim>\<open>shm_open\<close> adds the one it returns and \<^verbatim>\<open>close\<close> removes its argument.
\<close>

datatype mmap_answer = MapFails | MapsAt nat

record os_answers =
  shm_open_ret :: int
  mmap_ret :: mmap_answer

fun mmap_pointer :: "mmap_answer \<Rightarrow> pointer" where
  "mmap_pointer MapFails = MAP_FAILED"
| "mmap_pointer (MapsAt a) = Mapped a"

definition tryReconnect ::
  "SharedMemoryReader \<Rightarrow> os_answers \<Rightarrow> int list \<Rightarrow> bool \<times> SharedMemoryReader \<times> int list"
where
  "tryReconnect r os fds =
     (if buffer_field r \<noteq> nullptr then (True, r, fds)
      else
        (let fd = shm_open_ret os; r1 = r\<lparr>fd_field := fd\<rparr> in
         if fd = - 1 then (False, r1, fds)
         else
           (let fds1 = fd # fds; r2 = r1\<lparr>buffer_field := mmap_pointer (mmap_ret os)\<rparr> in
            if buffer_field r2 = MAP_FAILED
            then (False, r2\<lparr>fd_field := - 1, buffer_field := nullptr\<rparr>, remove1 (fd_field r2) fds1)
            else (True, r2, fds1))))"

text \<open>
  The constructor starts from the member initialisers \<^verbatim>\<open>fd_ = -1\<close> and
  \<^verbatim>\<open>buffer_ = nullptr\<close> and makes the same attempt once.
\<close>

definition SharedMemoryReader_new :: "os_answers \<Rightarrow> int list \<Rightarrow> SharedMemoryReader \<times> int list" where
  "SharedMemoryReader_new os fds =
     (let r0 = \<lparr>fd_field = - 1, buffer_field = nullptr\<rparr>; fd = shm_open_ret os; r1 = r0\<lparr>fd_field := fd\<rparr> in
      if fd \<noteq> - 1 then
        (let fds1 = fd # fds; r2 = r1\<lparr>buffer_field := mmap_pointer (mmap_ret os)\<rparr> in
         if buffer_field r2 = MAP_FAILED
         then (r2\<lparr>fd_field := - 1, buffer_field := nullptr\<rparr>, remove1 (fd_field r2) fds1)
         else (r2, fds1))
      else (r1, fds))"

text \<open>Calling \<^verbatim>\<open>tryReconnect\<close> once per answer of the operating system, in order.\<close>

fun tryReconnect_each ::
  "SharedMemoryReader \<Rightarrow> int list \<Rightarrow> os_answers list \<Rightarrow> bool list \<times> SharedMemoryReader \<times> int list"
where
  "tryReconnect_each r fds [] = ([], r, fds)"
| "tryReconnect_each r fds (os # oss) =
     (case tryReconnect r os fds of
        (ok, r', fds') \<Rightarrow>
          (case tryReconnect_each r' fds' oss of
             (oks, r'', fds'') \<Rightarrow> (ok # oks, r'', fds'')))"

text \<open>
  \<^verbatim>\<open>memset(samples, 0, bytesCount)\<close> clears the first \<open>bytesCount\<close> bytes of the
  destination. The destination is seen as an array of floats, each float four bytes
  with the low-order byte at the lowest address (the driver's targets are
  little-endian). So the first \<open>bytesCount div 4\<close> floats become zero, and when
  \<open>bytesCount\<close> is not a multiple of 4 the next float loses its \<open>bytesCount mod 4\<close>
  low-order bytes and keeps the others. \<open>clear_low_bytes k x\<close> is \<open>x\<close> with its \<open>k\<close>
  low-order bytes cleared; \<open>zero_bytes samples b\<close> is the array after its first \<open>b\<close>
  bytes are cleared; \<open>byte_at samples j\<close> is byte \<open>j\<close> of the array. The call is a fault
  when the array does not hold \<open>bytesCount\<close> bytes.
\<close>

definition clear_low_bytes :: "nat \<Rightarrow> sample \<Rightarrow> sample" where
  "clear_low_bytes k x = push_bit (8 * k) (drop_bit (8 * k) x)"

definition zero_bytes :: "sample list \<Rightarrow> nat \<Rightarrow> sample list" where
  "zero_bytes samples b =
     (let n = b div 4; k = b mod 4 in
      if k = 0 then replicate n 0 @ drop n samples
      else replicate n 0 @ clear_low_bytes k (samples ! n) # drop (Suc n) samples)"

definition memset_zero :: "sample list \<Rightarrow> 32 word \<Rightarrow> fault + sample list" where
  "memset_zero samples bytesCount =
     (if length samples * 4 < unat bytesCount then Inl SamplesOutOfBounds
      else Inr (zero_bytes samples (unat bytesCount)))"

definition byte_at :: "sample list \<Rightarrow> nat \<Rightarrow> 8 word" where
  "byte_at samples j = ucast (drop_bit (8 * (j mod 4)) (samples ! (j div 4)))"

text \<open>
  The first statement of the callback after the casts:
  \<^verbatim>\<open>if (!shmReader_.buffer()) shmReader_.tryReconnect();\<close>
\<close>

definition reconnect_if_unmapped ::
  "SharedMemoryReader \<Rightarrow> os_answers \<Rightarrow> int list \<Rightarrow> SharedMemoryReader \<times> int list"
where
  "reconnect_if_unmapped r os fds =
     (if buffer_field r = nullptr then snd (tryReconnect r os fds) else (r, fds))"

text \<open>
  \<^verbatim>\<open>UInt32 numSamples = bytesCount / sizeof(float) / ChannelCount\<close>: the division is done
  in \<^verbatim>\<open>size_t\<close> and the quotient converted back to 32 bits.
\<close>

definition numSamples_of :: "32 word \<Rightarrow> 32 word" where
  "numSamples_of bytesCount = ucast ((ucast bytesCount :: 64 word) div 4 div ucast ChannelCount)"

text \<open>
  The callback. \<open>shm\<close> is the shared buffer as a mapping of the segment shows it; it is
  looked at only through a mapped \<^verbatim>\<open>buffer_\<close>. The result is the destination, the shared
  buffer, the reader and the open descriptors after the call.
\<close>

definition OnReadClientInput ::
  "SharedMemoryReader \<Rightarrow> os_answers \<Rightarrow> int list \<Rightarrow> SharedAudioBuffer \<Rightarrow> sample list \<Rightarrow> 32 word \<Rightarrow>
     fault + (sample list \<times> SharedAudioBuffer \<times> SharedMemoryReader \<times> int list)"
where
  "OnReadClientInput r os fds shm samples bytesCount =
     (let numSamples = numSamples_of bytesCount;
          (r1, fds1) = reconnect_if_unmapped r os fds
      in if buffer_field r1 = MAP_FAILED then Inl InvalidPointer
         else if buffer_field r1 \<noteq> nullptr \<and> isActive shm then
           (case read shm samples (ucast numSamples) of
              Inl e \<Rightarrow> Inl e
            | Inr (ok, samples', shm') \<Rightarrow>
                if \<not> ok then
                  (case memset_zero samples' bytesCount of
                     Inl e \<Rightarrow> Inl e
                   | Inr silence \<Rightarrow> Inr (silence, shm', r1, fds1))
                else Inr (samples', shm', r1, fds1))
         else
           (case memset_zero samples bytesCount of
              Inl e \<Rightarrow> Inl e
            | Inr silence \<Rightarrow> Inr (silence, shm, r1, fds1)))"

text \<open>
  An attempt to connect fails when \<^verbatim>\<open>shm_open\<close> returns \<open>-1\<close> or \<^verbatim>\<open>mmap\<close> returns
  \<^verbatim>\<open>MAP_FAILED\<close>.
\<close>

definition attempt_fails :: "os_answers \<Rightarrow> bool" where
  "attempt_fails os \<longleftrightarrow> shm_open_ret os = - 1 \<or> mmap_ret os = MapFails"

section \<open>A long run\<close>

text \<open>
  A long run for the counters: \<open>2 ^ 52 - 1\<close> rounds that each write a full buffer of
  4096 silent frames and read it back, and one more full write.
\<close>

definition wrap_round :: "call list" where
  "wrap_round = [Write (replicate 8192 0) 4096, Read (replicate 8192 0) 4096]"

definition wrap_calls :: "call list" where
  "wrap_calls = concat (replicate (2 ^ 52 - 1) wrap_round) @ [Write (replicate 8192 0) 4096]"

section \<open>Facts about the loops\<close>

subsection \<open>Slots\<close>

text \<open>
  The capacity divides \<open>2 ^ 64\<close>, so the slot of a frame counter depends only on the
  counter modulo the capacity, also across a wrap of the 64-bit counter.
\<close>

lemma mod_4096_of_mod_word: "(k mod 2 ^ 64) mod 4096 = k mod (4096::nat)"
  by (rule mod_mod_cancel) simp

lemma slot_add: "unat ((x + of_nat k) mod kRingBufferFrames) = (unat x + k) mod 4096"
  for x :: "64 word"
proof -
  have "unat ((x + of_nat k) mod kRingBufferFrames) = ((unat x + k mod 2 ^ 64) mod 2 ^ 64) mod 4096"
    by (simp add: kRingBufferFrames_def unat_mod unat_word_ariths unat_of_nat)
  also have "\<dots> = (unat x + k mod 2 ^ 64) mod 4096"
    by (rule mod_4096_of_mod_word)
  also have "\<dots> = (unat x + k) mod 4096"
    by (rule mod_add_cong) (simp_all only: mod_4096_of_mod_word)
  finally show ?thesis .
qed

lemma slot_word: "unat ((x + i) mod kRingBufferFrames) = (unat x + unat i) mod 4096"
  for x i :: "64 word"
  using slot_add [of x "unat i"] by simp

lemma slot_distinct:
  assumes "k < k'" and "k' - k < 4096"
  shows "(a + k) mod 4096 \<noteq> (a + k') mod (4096::nat)"
proof
  assume "(a + k) mod 4096 = (a + k') mod (4096::nat)"
  then have "(a + k') mod 4096 = (a + k) mod (4096::nat)" by simp
  then have "4096 dvd (a + k') - (a + k)"
    by (rule mod_eq_dvd_iff_nat [THEN iffD1, rotated]) (use assms in simp)
  then have "4096 dvd k' - k" by simp
  with assms show False by (auto dest: dvd_imp_le)
qed

subsection \<open>The channel loops at two channels\<close>

lemma unat_twice: "unat i < 2 ^ 63 \<Longrightarrow> unat (i * 2) = unat i * 2" for i :: "64 word"
  using unat_mult_lem [of i 2] by simp

lemma unat_twice_succ: "unat i < 2 ^ 63 \<Longrightarrow> unat (i * 2 + 1) = unat i * 2 + 1"
  for i :: "64 word"
  using unat_add_lem [of "i * 2" 1] by (simp add: unat_twice)

lemma write_channels_stereo:
  assumes "unat index * 2 + 1 < length ad" and "unat i * 2 + 1 < length samples"
    and "unat index < 2 ^ 63" and "unat i < 2 ^ 63"
  shows "write_channels ad samples index i 2 0 =
    Inr (ad[unat index * 2 := samples ! (unat i * 2),
            unat index * 2 + 1 := samples ! (unat i * 2 + 1)])"
proof -
  have two: "write_channels ad' samples index i 2 2 = Inr ad'" for ad'
    by (simp add: write_channels.simps [of _ _ _ _ 2 2])
  have one: "write_channels ad' samples index i 2 1 =
      Inr (ad'[unat index * 2 + 1 := samples ! (unat i * 2 + 1)])"
    if "length ad' = length ad" for ad'
    using assms that
    by (simp add: write_channels.simps [of _ _ _ _ 2 1] two unat_twice_succ Let_def)
  show ?thesis
    using assms
    by (simp add: write_channels.simps [of _ _ _ _ 2 0] one unat_twice Let_def)
qed

lemma read_channels_stereo:
  assumes "unat index * 2 + 1 < length ad" and "unat i * 2 + 1 < length samples"
    and "unat index < 2 ^ 63" and "unat i < 2 ^ 63"
  shows "read_channels samples ad index i 2 0 =
    Inr (samples[unat i * 2 := ad ! (unat index * 2),
                 unat i * 2 + 1 := ad ! (unat index * 2 + 1)])"
proof -
  have two: "read_channels samples' ad index i 2 2 = Inr samples'" for samples'
    by (simp add: read_channels.simps [of _ _ _ _ 2 2])
  have one: "read_channels samples' ad index i 2 1 =
      Inr (samples'[unat i * 2 + 1 := ad ! (unat index * 2 + 1)])"
    if "length samples' = length samples" for samples'
    using assms that
    by (simp add: read_channels.simps [of _ _ _ _ 2 1] two unat_twice_succ Let_def)
  show ?thesis
    using assms
    by (simp add: read_channels.simps [of _ _ _ _ 2 0] one unat_twice Let_def)
qed

subsection \<open>The frame loops at two channels\<close>

lemma write_frames_stereo:
  assumes "length ad = 8192" and "unat n * 2 \<le> length samples" and "unat n \<le> 2 ^ 63"
    and "unat n - unat i \<le> 4096"
  shows "\<exists>ad'. write_frames ad samples wp n 2 i = Inr ad' \<and> length ad' = 8192 \<and>
    (\<forall>k c. unat i \<le> k \<longrightarrow> k < unat n \<longrightarrow> c < 2 \<longrightarrow>
       ad' ! ((unat wp + k) mod 4096 * 2 + c) = samples ! (k * 2 + c)) \<and>
    (\<forall>p. (\<forall>k. unat i \<le> k \<longrightarrow> k < unat n \<longrightarrow> p div 2 \<noteq> (unat wp + k) mod 4096) \<longrightarrow>
       ad' ! p = ad ! p)"
  using assms
proof (induction "unat n - unat i" arbitrary: i ad)
  case 0
  then have "\<not> i < n" by (simp add: word_less_nat_alt)
  with 0 show ?case by (simp add: write_frames.simps [of _ _ _ _ _ i])
next
  case (Suc m)
  then have lt: "i < n" by (simp add: word_less_nat_alt)
  then have ui: "unat i < unat n" by (simp add: word_less_nat_alt)
  have succ: "unat (i + 1) = Suc (unat i)" using lt by (rule unat_word_succ)
  define sl where "sl = (unat wp + unat i) mod 4096"
  have sl: "unat ((wp + i) mod kRingBufferFrames) = sl" "sl < 4096"
    by (simp_all add: sl_def slot_word)
  define ad1 where "ad1 = ad[sl * 2 := samples ! (unat i * 2), sl * 2 + 1 := samples ! (unat i * 2 + 1)]"
  have wc: "write_channels ad samples ((wp + i) mod kRingBufferFrames) i 2 0 = Inr ad1"
    unfolding ad1_def sl(1) [symmetric]
    by (rule write_channels_stereo) (use Suc.prems ui sl in simp_all)
  have len1: "length ad1 = 8192" by (simp add: ad1_def Suc.prems)
  have "m = unat n - unat (i + 1)" using Suc.hyps(2) succ by simp
  moreover have "unat n - unat (i + 1) \<le> 4096" using Suc.prems(4) succ by simp
  ultimately obtain ad' where
    run: "write_frames ad1 samples wp n 2 (i + 1) = Inr ad'" and
    len': "length ad' = 8192" and
    new: "\<And>k c. unat (i + 1) \<le> k \<Longrightarrow> k < unat n \<Longrightarrow> c < 2 \<Longrightarrow>
       ad' ! ((unat wp + k) mod 4096 * 2 + c) = samples ! (k * 2 + c)" and
    old: "\<And>p. (\<And>k. unat (i + 1) \<le> k \<Longrightarrow> k < unat n \<Longrightarrow> p div 2 \<noteq> (unat wp + k) mod 4096) \<Longrightarrow>
       ad' ! p = ad1 ! p"
    using Suc.hyps(1) [of "i + 1" ad1] len1 Suc.prems(2,3) by blast
  have here: "ad' ! (sl * 2 + c) = samples ! (unat i * 2 + c)" if "c < 2" for c
  proof -
    have "ad' ! (sl * 2 + c) = ad1 ! (sl * 2 + c)"
    proof (rule old)
      fix k assume k: "unat (i + 1) \<le> k" "k < unat n"
      have "(unat wp + unat i) mod 4096 \<noteq> (unat wp + k) mod 4096"
        by (rule slot_distinct) (use k succ Suc.prems(4) in simp_all)
      moreover have "(sl * 2 + c) div 2 = sl" using that by simp
      ultimately show "(sl * 2 + c) div 2 \<noteq> (unat wp + k) mod 4096" by (simp add: sl_def)
    qed
    also have "\<dots> = samples ! (unat i * 2 + c)"
    proof -
      from that consider "c = 0" | "c = 1" by linarith
      then show ?thesis
        using sl(2) Suc.prems(1) by cases (simp_all add: ad1_def)
    qed
    finally show ?thesis .
  qed
  have "write_frames ad samples wp n 2 i = Inr ad'"
    using lt wc run by (simp add: write_frames.simps [of ad _ _ _ _ i])
  moreover have "ad' ! ((unat wp + k) mod 4096 * 2 + c) = samples ! (k * 2 + c)"
    if "unat i \<le> k" "k < unat n" "c < 2" for k c
  proof (cases "k = unat i")
    case True
    with here [OF that(3)] show ?thesis by (simp add: sl_def)
  next
    case False
    with that succ show ?thesis by (intro new) simp_all
  qed
  moreover have "ad' ! p = ad ! p"
    if "\<And>k. unat i \<le> k \<Longrightarrow> k < unat n \<Longrightarrow> p div 2 \<noteq> (unat wp + k) mod 4096" for p
  proof -
    have "ad' ! p = ad1 ! p"
      by (rule old) (use that succ in simp)
    moreover have "p div 2 \<noteq> sl" using that [of "unat i"] ui by (simp add: sl_def)
    then have "p \<noteq> sl * 2" "p \<noteq> sl * 2 + 1" by auto
    then have "ad1 ! p = ad ! p" by (simp add: ad1_def)
    ultimately show ?thesis by simp
  qed
  ultimately show ?case using len' by blast
qed

lemma read_frames_stereo:
  assumes "length ad = 8192" and "unat n * 2 \<le> length samples" and "unat n \<le> 2 ^ 63"
  shows "\<exists>samples'. read_frames samples ad rp n 2 i = Inr samples' \<and>
    length samples' = length samples \<and>
    (\<forall>k c. unat i \<le> k \<longrightarrow> k < unat n \<longrightarrow> c < 2 \<longrightarrow>
       samples' ! (k * 2 + c) = ad ! ((unat rp + k) mod 4096 * 2 + c)) \<and>
    (\<forall>p. p < unat i * 2 \<or> unat n * 2 \<le> p \<longrightarrow> samples' ! p = samples ! p)"
  using assms
proof (induction "unat n - unat i" arbitrary: i samples)
  case 0
  then have "\<not> i < n" by (simp add: word_less_nat_alt)
  with 0 show ?case by (simp add: read_frames.simps [of _ _ _ _ _ i])
next
  case (Suc m)
  then have lt: "i < n" by (simp add: word_less_nat_alt)
  then have ui: "unat i < unat n" by (simp add: word_less_nat_alt)
  have succ: "unat (i + 1) = Suc (unat i)" using lt by (rule unat_word_succ)
  define sl where "sl = (unat rp + unat i) mod 4096"
  have sl: "unat ((rp + i) mod kRingBufferFrames) = sl" "sl < 4096"
    by (simp_all add: sl_def slot_word)
  define s1 where
    "s1 = samples[unat i * 2 := ad ! (sl * 2), unat i * 2 + 1 := ad ! (sl * 2 + 1)]"
  have rc: "read_channels samples ad ((rp + i) mod kRingBufferFrames) i 2 0 = Inr s1"
    unfolding s1_def sl(1) [symmetric]
    by (rule read_channels_stereo) (use Suc.prems ui sl in simp_all)
  have len1: "length s1 = length samples" by (simp add: s1_def)
  have "m = unat n - unat (i + 1)" using Suc.hyps(2) succ by simp
  then obtain samples' where
    run: "read_frames s1 ad rp n 2 (i + 1) = Inr samples'" and
    len': "length samples' = length s1" and
    new: "\<And>k c. unat (i + 1) \<le> k \<Longrightarrow> k < unat n \<Longrightarrow> c < 2 \<Longrightarrow>
       samples' ! (k * 2 + c) = ad ! ((unat rp + k) mod 4096 * 2 + c)" and
    old: "\<And>p. p < unat (i + 1) * 2 \<or> unat n * 2 \<le> p \<Longrightarrow> samples' ! p = s1 ! p"
    using Suc.hyps(1) [of "i + 1" s1] len1 Suc.prems by metis
  have here: "samples' ! (unat i * 2 + c) = ad ! (sl * 2 + c)" if "c < 2" for c
  proof -
    have "samples' ! (unat i * 2 + c) = s1 ! (unat i * 2 + c)"
      by (rule old) (use that succ in simp)
    also have "\<dots> = ad ! (sl * 2 + c)"
    proof -
      from that consider "c = 0" | "c = 1" by linarith
      then show ?thesis
        using ui Suc.prems(2) by cases (simp_all add: s1_def)
    qed
    finally show ?thesis .
  qed
  have "read_frames samples ad rp n 2 i = Inr samples'"
    using lt rc run by (simp add: read_frames.simps [of samples _ _ _ _ i])
  moreover have "samples' ! (k * 2 + c) = ad ! ((unat rp + k) mod 4096 * 2 + c)"
    if "unat i \<le> k" "k < unat n" "c < 2" for k c
  proof (cases "k = unat i")
    case True
    with here [OF that(3)] show ?thesis by (simp add: sl_def)
  next
    case False
    with that succ show ?thesis by (intro new) simp_all
  qed
  moreover have "samples' ! p = samples ! p" if "p < unat i * 2 \<or> unat n * 2 \<le> p" for p
  proof -
    have "samples' ! p = s1 ! p"
      by (rule old) (use that succ in auto)
    moreover have "p \<noteq> unat i * 2" "p \<noteq> unat i * 2 + 1" using that ui by auto
    then have "s1 ! p = samples ! p" by (simp add: s1_def)
    ultimately show ?thesis by simp
  qed
  ultimately show ?case using len' len1 by auto
qed

lemma zero_fill_result:
  assumes "unat bound \<le> length samples"
  shows "zero_fill samples bound i =
    Inr (take (unat i) samples @ replicate (unat bound - unat i) 0 @
         drop (max (unat i) (unat bound)) samples)"
  using assms
proof (induction "unat bound - unat i" arbitrary: i samples)
  case 0
  then have "\<not> i < bound" by (simp add: word_less_nat_alt)
  moreover have "max (unat i) (unat bound) = unat i" using 0 by simp
  ultimately show ?case using 0 by (simp add: zero_fill.simps [of _ _ i])
next
  case (Suc m)
  then have lt: "i < bound" by (simp add: word_less_nat_alt)
  then have ui: "unat i < unat bound" by (simp add: word_less_nat_alt)
  have succ: "unat (i + 1) = Suc (unat i)" using lt by (rule unat_word_succ)
  have "m = unat bound - unat (i + 1)" using Suc.hyps(2) succ by simp
  then have "zero_fill (samples[unat i := 0]) bound (i + 1) =
    Inr (take (unat (i + 1)) (samples[unat i := 0]) @ replicate (unat bound - unat (i + 1)) 0 @
         drop (max (unat (i + 1)) (unat bound)) (samples[unat i := 0]))"
    using Suc.prems by (intro Suc.hyps(1)) simp_all
  moreover have "take (Suc (unat i)) (samples[unat i := 0]) = take (unat i) samples @ [0]"
    using ui Suc.prems by (simp add: take_Suc_conv_app_nth)
  moreover have "replicate (unat bound - unat i) (0::sample) =
      0 # replicate (unat bound - Suc (unat i)) 0"
    using ui by (cases "unat bound - unat i") simp_all
  moreover have "max (Suc (unat i)) (unat bound) = unat bound"
    "max (unat i) (unat bound) = unat bound" using ui by simp_all
  ultimately show ?case
    using lt ui Suc.prems by (simp add: zero_fill.simps [of samples _ i] succ)
qed

subsection \<open>One call\<close>

lemma unat_ucast_32_64: "unat (ucast (x :: 32 word) :: 64 word) = unat x"
proof -
  have "unat x < 2 ^ 32" using unsigned_less [of x] by simp
  then have "unat x < 2 ^ 64" by simp
  then show ?thesis
    by (simp add: unsigned_ucast_eq take_bit_nat_eq_self)
qed

lemma layout_okD: "layout_ok s \<Longrightarrow> channels s = 2 \<and> length (audioData s) = 8192"
  by (simp add: layout_ok_def kChannels_def kRingBufferFrames_def)

lemma unat_add_mod_4096: "(unat (x + y) + k) mod 4096 = (unat x + unat y + k) mod 4096"
  for x y :: "64 word"
proof -
  have "unat (x + y) mod 4096 = (unat x + unat y) mod 4096"
    using slot_word [of x y] by (simp add: kRingBufferFrames_def unat_mod)
  then show ?thesis by (rule mod_add_cong) simp
qed

lemma frame_sample_slot:
  "frame_sample ad pos j = ad ! ((unat pos + j div 2) mod 4096 * 2 + j mod 2)"
  by (simp add: frame_sample_def slot_add)

lemma frame_sample_shift:
  "frame_sample ad (pos + n) j = frame_sample ad pos (unat n * 2 + j)"
proof -
  have "(unat n * 2 + j) div 2 = unat n + j div 2" "(unat n * 2 + j) mod 2 = j mod 2"
    by simp_all
  then show ?thesis
    by (simp add: frame_sample_slot unat_add_mod_4096 add.assoc)
qed

lemma write_sab_accepted:
  assumes "layout_ok s" and "\<not> availableToWrite s < n" and "unat n \<le> 4096"
    and "unat n * 2 \<le> length samples"
  shows "\<exists>ad'. write_sab s samples n =
      Inr (True, s\<lparr>audioData := ad', writeIndex := writeIndex s + n\<rparr>) \<and>
    length ad' = 8192 \<and>
    (\<forall>k c. k < unat n \<longrightarrow> c < 2 \<longrightarrow>
       ad' ! ((unat (writeIndex s) + k) mod 4096 * 2 + c) = samples ! (k * 2 + c)) \<and>
    (\<forall>p. (\<forall>k. k < unat n \<longrightarrow> p div 2 \<noteq> (unat (writeIndex s) + k) mod 4096) \<longrightarrow>
       ad' ! p = audioData s ! p)"
proof -
  from assms(1) have lay: "channels s = 2" "length (audioData s) = 8192"
    by (simp_all add: layout_okD)
  have "unat n \<le> 2 ^ 63" "unat n - unat (0::64 word) \<le> 4096" using assms(3) by simp_all
  from write_frames_stereo [OF lay(2) assms(4) this, of "writeIndex s"]
  obtain ad' where
    "write_frames (audioData s) samples (writeIndex s) n 2 0 = Inr ad'" "length ad' = 8192"
    "\<forall>k c. unat (0::64 word) \<le> k \<longrightarrow> k < unat n \<longrightarrow> c < 2 \<longrightarrow>
       ad' ! ((unat (writeIndex s) + k) mod 4096 * 2 + c) = samples ! (k * 2 + c)"
    "\<forall>p. (\<forall>k. unat (0::64 word) \<le> k \<longrightarrow> k < unat n \<longrightarrow> p div 2 \<noteq> (unat (writeIndex s) + k) mod 4096) \<longrightarrow>
       ad' ! p = audioData s ! p"
    by blast
  then show ?thesis
    using assms(2) lay(1) by (intro exI [of _ ad']) (simp add: write_sab_def)
qed

lemma read_delivers:
  assumes "layout_ok s" and "\<not> availableToRead s < n" and "unat n \<le> 2 ^ 63"
    and "unat n * 2 \<le> length samples"
  shows "\<exists>samples'. read s samples n = Inr (True, samples', s\<lparr>readIndex := readIndex s + n\<rparr>) \<and>
    length samples' = length samples \<and>
    take (unat n * 2) samples' = map (frame_sample (audioData s) (readIndex s)) [0..<unat n * 2] \<and>
    drop (unat n * 2) samples' = drop (unat n * 2) samples"
proof -
  from assms(1) have lay: "channels s = 2" "length (audioData s) = 8192"
    by (simp_all add: layout_okD)
  from read_frames_stereo [OF lay(2) assms(4,3), of "readIndex s" 0]
  obtain samples' where
    run: "read_frames samples (audioData s) (readIndex s) n 2 0 = Inr samples'" and
    len: "length samples' = length samples" and
    new: "\<And>k c. k < unat n \<Longrightarrow> c < 2 \<Longrightarrow>
       samples' ! (k * 2 + c) = audioData s ! ((unat (readIndex s) + k) mod 4096 * 2 + c)" and
    old: "\<And>p. unat n * 2 \<le> p \<Longrightarrow> samples' ! p = samples ! p"
    by auto
  have "take (unat n * 2) samples' = map (frame_sample (audioData s) (readIndex s)) [0..<unat n * 2]"
  proof (rule nth_equalityI)
    show "length (take (unat n * 2) samples') =
        length (map (frame_sample (audioData s) (readIndex s)) [0..<unat n * 2])"
      using len assms(4) by simp
  next
    fix j assume "j < length (take (unat n * 2) samples')"
    then have j: "j < unat n * 2" by simp
    then have "j div 2 < unat n" "j mod 2 < 2" by simp_all
    from new [OF this] show "take (unat n * 2) samples' ! j =
        map (frame_sample (audioData s) (readIndex s)) [0..<unat n * 2] ! j"
      using j by (simp add: frame_sample_slot)
  qed
  moreover have "drop (unat n * 2) samples' = drop (unat n * 2) samples"
    by (rule nth_equalityI) (simp_all add: len old)
  ultimately show ?thesis
    using run len assms(2) lay(1) by (intro exI [of _ samples']) (simp add: read_def)
qed

lemma read_underrun_result:
  assumes "availableToRead s < n" and "unat n * unat (channels s) \<le> length samples"
    and "length samples < 2 ^ 64"
  shows "read s samples n =
    Inr (False, replicate (unat n * unat (channels s)) 0 @
                drop (unat n * unat (channels s)) samples, s)"
proof -
  have "unat n * unat (ucast (channels s) :: 64 word) < 2 ^ 64"
    using assms(2,3) by (simp add: unat_ucast_32_64)
  then have "unat (n * ucast (channels s)) = unat n * unat (channels s)"
    using unat_mult_lem [of n "ucast (channels s)"] by (simp add: unat_ucast_32_64)
  then show ?thesis
    using assms(1,2) by (simp add: read_def zero_fill_result)
qed

lemma room_nat:
  assumes "availableToRead s \<le> kRingBufferFrames" and "\<not> availableToWrite s < n"
  shows "unat (availableToRead s) + unat n \<le> 4096"
proof -
  have d: "unat (availableToRead s) \<le> 4096"
    using assms(1) by (simp add: word_le_nat_alt kRingBufferFrames_def)
  have "availableToWrite s = kRingBufferFrames - availableToRead s"
    by (simp add: availableToWrite_def availableToRead_def)
  then have "unat (availableToWrite s) = 4096 - unat (availableToRead s)"
    using assms(1) by (simp add: unat_sub kRingBufferFrames_def)
  moreover have "unat n \<le> unat (availableToWrite s)"
    using assms(2) by (simp add: word_less_nat_alt)
  ultimately show ?thesis using d by simp
qed

lemma writeIndex_split: "writeIndex s = readIndex s + availableToRead s"
  by (simp add: availableToRead_def)

lemma write_sab_pending:
  assumes "ring_inv s" and "\<not> availableToWrite s < n" and "unat n * 2 \<le> length samples"
  shows "\<exists>s'. write_sab s samples n = Inr (True, s') \<and> ring_inv s' \<and>
    pending s' = pending s @ take (unat n * 2) samples \<and>
    writeIndex s' = writeIndex s + n \<and> readIndex s' = readIndex s \<and>
    unat (availableToRead s') = unat (availableToRead s) + unat n"
proof -
  from assms(1) have lay: "layout_ok s" and cap: "availableToRead s \<le> kRingBufferFrames"
    by (simp_all add: ring_inv_def)
  define d where "d = unat (availableToRead s)"
  have room: "d + unat n \<le> 4096" unfolding d_def using cap assms(2) by (rule room_nat)
  then have n: "unat n \<le> 4096" by simp
  from write_sab_accepted [OF lay assms(2) n assms(3)]
  obtain ad' where
    res: "write_sab s samples n = Inr (True, s\<lparr>audioData := ad', writeIndex := writeIndex s + n\<rparr>)" and
    len: "length ad' = 8192" and
    new: "\<And>k c. k < unat n \<Longrightarrow> c < 2 \<Longrightarrow>
       ad' ! ((unat (writeIndex s) + k) mod 4096 * 2 + c) = samples ! (k * 2 + c)" and
    old: "\<And>p. (\<And>k. k < unat n \<Longrightarrow> p div 2 \<noteq> (unat (writeIndex s) + k) mod 4096) \<Longrightarrow>
       ad' ! p = audioData s ! p"
    by blast
  define s' where "s' = s\<lparr>audioData := ad', writeIndex := writeIndex s + n\<rparr>"
  have slotw: "(unat (writeIndex s) + k) mod 4096 = (unat (readIndex s) + (d + k)) mod 4096" for k
    unfolding d_def by (subst writeIndex_split) (simp add: unat_add_mod_4096 add.assoc)
  have av: "availableToRead s' = availableToRead s + n"
    by (simp add: s'_def availableToRead_def)
  have avn: "unat (availableToRead s') = d + unat n"
    unfolding av d_def using room unat_add_lem [of "availableToRead s" n] by (simp add: d_def)
  have "layout_ok s'" using lay len by (simp add: s'_def layout_ok_def kRingBufferFrames_def kChannels_def)
  moreover have "availableToRead s' \<le> kRingBufferFrames"
    using avn room by (simp add: word_le_nat_alt kRingBufferFrames_def)
  ultimately have inv': "ring_inv s'" by (simp add: ring_inv_def)
  have ps: "pending s = map (frame_sample (audioData s) (readIndex s)) [0..<d * 2]"
    by (simp add: pending_def d_def)
  have "pending s' = map (frame_sample (audioData s') (readIndex s')) [0..<(d + unat n) * 2]"
    by (simp only: pending_def avn)
  then have ps': "pending s' = map (frame_sample ad' (readIndex s)) [0..<(d + unat n) * 2]"
    by (simp add: s'_def)
  have "pending s' = pending s @ take (unat n * 2) samples"
  proof (rule nth_equalityI)
    show "length (pending s') = length (pending s @ take (unat n * 2) samples)"
      using assms(3) by (simp add: ps ps' min_def)
  next
    fix j assume "j < length (pending s')"
    then have j: "j < (d + unat n) * 2" by (simp add: ps')
    show "pending s' ! j = (pending s @ take (unat n * 2) samples) ! j"
    proof (cases "j < d * 2")
      case True
      have "ad' ! ((unat (readIndex s) + j div 2) mod 4096 * 2 + j mod 2) =
          audioData s ! ((unat (readIndex s) + j div 2) mod 4096 * 2 + j mod 2)"
      proof (rule old)
        fix k assume k: "k < unat n"
        have "(unat (readIndex s) + j div 2) mod 4096 \<noteq> (unat (readIndex s) + (d + k)) mod 4096"
          by (rule slot_distinct) (use True k room in simp_all)
        then show "((unat (readIndex s) + j div 2) mod 4096 * 2 + j mod 2) div 2 \<noteq>
            (unat (writeIndex s) + k) mod 4096"
          by (simp add: slotw)
      qed
      then show ?thesis
        using True j
        by (simp add: ps ps' nth_append frame_sample_slot)
    next
      case False
      define k where "k = j div 2 - d"
      have k: "k < unat n" "j div 2 = d + k" using False j by (simp_all add: k_def)
      have c: "j mod 2 < 2" by simp
      have "k * 2 + j mod 2 = j - d * 2" using k(2) False by presburger
      with new [OF k(1) c] have
        "ad' ! ((unat (readIndex s) + j div 2) mod 4096 * 2 + j mod 2) = samples ! (j - d * 2)"
        by (simp add: slotw k(2))
      then show ?thesis
        using False j assms(3)
        by (simp add: ps ps' nth_append frame_sample_slot)
    qed
  qed
  with res inv' avn show ?thesis
    by (intro exI [of _ s']) (simp add: s'_def [symmetric] d_def, simp add: s'_def)
qed

lemma read_pending:
  assumes "ring_inv s" and "\<not> availableToRead s < n" and "unat n * 2 \<le> length samples"
  shows "\<exists>samples' s'. read s samples n = Inr (True, samples', s') \<and> ring_inv s' \<and>
    pending s = take (unat n * 2) samples' @ pending s' \<and>
    writeIndex s' = writeIndex s \<and> readIndex s' = readIndex s + n \<and>
    unat (availableToRead s') + unat n = unat (availableToRead s)"
proof -
  from assms(1) have lay: "layout_ok s" and cap: "availableToRead s \<le> kRingBufferFrames"
    by (simp_all add: ring_inv_def)
  define d where "d = unat (availableToRead s)"
  have le: "n \<le> availableToRead s" using assms(2) by simp
  then have nd: "unat n \<le> d" by (simp add: d_def word_le_nat_alt)
  have d: "d \<le> 4096" using cap by (simp add: d_def word_le_nat_alt kRingBufferFrames_def)
  have "unat n \<le> 2 ^ 63" using nd d by simp
  from read_delivers [OF lay assms(2) this assms(3)]
  obtain samples' where
    res: "read s samples n = Inr (True, samples', s\<lparr>readIndex := readIndex s + n\<rparr>)" and
    got: "take (unat n * 2) samples' =
      map (frame_sample (audioData s) (readIndex s)) [0..<unat n * 2]"
    by blast
  define s' where "s' = s\<lparr>readIndex := readIndex s + n\<rparr>"
  have av: "availableToRead s' = availableToRead s - n"
    by (simp add: s'_def availableToRead_def)
  have avn: "unat (availableToRead s') = d - unat n"
    unfolding av d_def using le by (rule unat_sub)
  have "layout_ok s'" using lay by (simp add: s'_def layout_ok_def)
  moreover have "availableToRead s' \<le> kRingBufferFrames"
    using avn d by (simp add: word_le_nat_alt kRingBufferFrames_def)
  ultimately have inv': "ring_inv s'" by (simp add: ring_inv_def)
  have ps: "pending s = map (frame_sample (audioData s) (readIndex s)) [0..<d * 2]"
    by (simp add: pending_def d_def)
  have "pending s' = map (frame_sample (audioData s') (readIndex s')) [0..<(d - unat n) * 2]"
    by (simp only: pending_def avn)
  then have ps': "pending s' =
      map (\<lambda>j. frame_sample (audioData s) (readIndex s) (unat n * 2 + j)) [0..<(d - unat n) * 2]"
    by (simp add: s'_def frame_sample_shift)
  have "pending s = take (unat n * 2) samples' @ pending s'"
  proof (rule nth_equalityI)
    show "length (pending s) = length (take (unat n * 2) samples' @ pending s')"
      using nd by (simp add: ps ps' got)
  next
    fix j assume "j < length (pending s)"
    then have j: "j < d * 2" by (simp add: ps)
    show "pending s ! j = (take (unat n * 2) samples' @ pending s') ! j"
    proof (cases "j < unat n * 2")
      case True
      then show ?thesis using j nd by (simp add: ps ps' got nth_append)
    next
      case False
      then have "j - unat n * 2 < (d - unat n) * 2" using j nd by simp
      then show ?thesis using False j nd by (simp add: ps ps' got nth_append)
    qed
  qed
  with res inv' avn nd show ?thesis
    by (intro exI [of _ samples'] exI [of _ s']) (simp add: s'_def [symmetric] d_def, simp add: s'_def)
qed

subsection \<open>A sequence of calls\<close>

lemma run_effect:
  assumes "ring_inv s" and "list_all buffer_ok calls"
  shows "\<exists>tr s'. run s calls = Inr (tr, s') \<and> ring_inv s' \<and>
    pending s @ written tr = delivered tr @ pending s' \<and>
    unat (writeIndex s') = (unat (writeIndex s) + frames_written tr) mod 2 ^ 64 \<and>
    unat (availableToRead s') \<le> unat (availableToRead s) + frames_written tr"
  using assms
proof (induction calls arbitrary: s)
  case Nil
  have "unat (writeIndex s) < 2 ^ 64" using unsigned_less [of "writeIndex s"] by simp
  with Nil show ?case by simp
next
  case (Cons c cs)
  from Cons.prems have ok: "buffer_ok c" and oks: "list_all buffer_ok cs" by simp_all
  show ?case
  proof (cases c)
    case (Write samples n)
    show ?thesis
    proof (cases "availableToWrite s < n")
      case True
      then have st: "step s (Write samples n) = Inr (WriteRet False, s)"
        by (simp add: write_sab_def)
      from Cons.IH [OF Cons.prems(1) oks] obtain tr s' where
        "run s cs = Inr (tr, s')" "ring_inv s'"
        "pending s @ written tr = delivered tr @ pending s'"
        "unat (writeIndex s') = (unat (writeIndex s) + frames_written tr) mod 2 ^ 64"
        "unat (availableToRead s') \<le> unat (availableToRead s) + frames_written tr"
        by blast
      then show ?thesis
        by (intro exI [of _ "(c, WriteRet False) # tr"] exI [of _ s']) (simp add: st Write del: step.simps)
    next
      case False
      from ok have "unat n * 2 \<le> length samples" by (simp add: Write)
      from write_sab_pending [OF Cons.prems(1) False this] obtain s1 where
        w: "write_sab s samples n = Inr (True, s1)" and inv1: "ring_inv s1" and
        p1: "pending s1 = pending s @ take (unat n * 2) samples" and
        w1: "writeIndex s1 = writeIndex s + n" and
        a1: "unat (availableToRead s1) = unat (availableToRead s) + unat n"
        by blast
      have st: "step s (Write samples n) = Inr (WriteRet True, s1)" by (simp add: w)
      from Cons.IH [OF inv1 oks] obtain tr s' where
        r: "run s1 cs = Inr (tr, s')" and inv': "ring_inv s'" and
        str: "pending s1 @ written tr = delivered tr @ pending s'" and
        wi: "unat (writeIndex s') = (unat (writeIndex s1) + frames_written tr) mod 2 ^ 64" and
        av: "unat (availableToRead s') \<le> unat (availableToRead s1) + frames_written tr"
        by blast
      have "unat (writeIndex s1) = (unat (writeIndex s) + unat n) mod 2 ^ 64"
        by (simp add: w1 unat_word_ariths)
      then have "(unat (writeIndex s1) + frames_written tr) mod 2 ^ 64 =
          (unat (writeIndex s) + unat n + frames_written tr) mod 2 ^ 64"
        by (simp add: mod_add_left_eq)
      with wi have wi': "unat (writeIndex s') =
          (unat (writeIndex s) + (unat n + frames_written tr)) mod 2 ^ 64"
        by (simp add: add.assoc)
      show ?thesis
        using r inv' str wi' av a1 p1
        by (intro exI [of _ "(c, WriteRet True) # tr"] exI [of _ s']) (simp add: st Write del: step.simps)
    qed
  next
    case (Read samples n)
    from ok have len: "unat n * 2 \<le> length samples" "length samples < 2 ^ 64"
      by (simp_all add: Read)
    have ch: "unat (channels s) = 2"
      using Cons.prems(1) by (simp add: ring_inv_def layout_okD)
    show ?thesis
    proof (cases "availableToRead s < n")
      case True
      from read_underrun_result [OF True _ len(2)] len(1) ch
      have st: "step s (Read samples n) =
          Inr (ReadRet False (replicate (unat n * 2) 0 @ drop (unat n * 2) samples), s)"
        by simp
      from Cons.IH [OF Cons.prems(1) oks] obtain tr s' where
        "run s cs = Inr (tr, s')" "ring_inv s'"
        "pending s @ written tr = delivered tr @ pending s'"
        "unat (writeIndex s') = (unat (writeIndex s) + frames_written tr) mod 2 ^ 64"
        "unat (availableToRead s') \<le> unat (availableToRead s) + frames_written tr"
        by blast
      then show ?thesis
        by (intro exI [of _ "(c, ReadRet False (replicate (unat n * 2) 0 @ drop (unat n * 2) samples)) # tr"]
            exI [of _ s']) (simp add: st Read del: step.simps)
    next
      case False
      from read_pending [OF Cons.prems(1) False len(1)] obtain samples' s1 where
        rd: "read s samples n = Inr (True, samples', s1)" and inv1: "ring_inv s1" and
        p1: "pending s = take (unat n * 2) samples' @ pending s1" and
        w1: "writeIndex s1 = writeIndex s" and
        a1: "unat (availableToRead s1) + unat n = unat (availableToRead s)"
        by blast
      have st: "step s (Read samples n) = Inr (ReadRet True samples', s1)" by (simp add: rd)
      from Cons.IH [OF inv1 oks] obtain tr s' where
        r: "run s1 cs = Inr (tr, s')" and inv': "ring_inv s'" and
        str: "pending s1 @ written tr = delivered tr @ pending s'" and
        wi: "unat (writeIndex s') = (unat (writeIndex s1) + frames_written tr) mod 2 ^ 64" and
        av: "unat (availableToRead s') \<le> unat (availableToRead s1) + frames_written tr"
        by blast
      show ?thesis
        using r inv' str wi av a1 p1 w1
        by (intro exI [of _ "(c, ReadRet True samples') # tr"] exI [of _ s']) (simp add: st Read del: step.simps)
    qed
  qed
qed

subsection \<open>No access outside the storage at two channels\<close>

lemma write_channels_stereo_faults:
  assumes "unat index < 4096" and "length ad = 8192"
  shows "write_channels ad samples index i 2 0 = Inl SamplesOutOfBounds \<or>
    (\<exists>ad'. write_channels ad samples index i 2 0 = Inr ad' \<and> length ad' = 8192)"
proof -
  have a: "unat (index * 2) = unat index * 2" "unat (index * 2 + 1) = unat index * 2 + 1"
    using assms(1) by (simp_all add: unat_twice unat_twice_succ)
  show ?thesis
    using assms
    by (simp add: write_channels.simps [of _ _ _ _ 2 0] write_channels.simps [of _ _ _ _ 2 1]
        write_channels.simps [of _ _ _ _ 2 2] a Let_def)
qed

lemma read_channels_stereo_faults:
  assumes "unat index < 4096" and "length ad = 8192"
  shows "read_channels samples ad index i 2 0 = Inl SamplesOutOfBounds \<or>
    (\<exists>samples'. read_channels samples ad index i 2 0 = Inr samples')"
proof -
  have a: "unat (index * 2) = unat index * 2" "unat (index * 2 + 1) = unat index * 2 + 1"
    using assms(1) by (simp_all add: unat_twice unat_twice_succ)
  show ?thesis
    using assms
    by (simp add: read_channels.simps [of _ _ _ _ 2 0] read_channels.simps [of _ _ _ _ 2 1]
        read_channels.simps [of _ _ _ _ 2 2] a Let_def)
qed

lemma slot_lt: "unat ((pos + i) mod kRingBufferFrames) < 4096"
  by (simp add: slot_word)

lemma write_frames_stereo_faults:
  assumes "length ad = 8192"
  shows "write_frames ad samples wp n 2 i \<noteq> Inl AudioDataOutOfBounds"
  using assms
proof (induction "unat n - unat i" arbitrary: i ad)
  case 0
  then have "\<not> i < n" by (simp add: word_less_nat_alt)
  then show ?case by (simp add: write_frames.simps [of _ _ _ _ _ i])
next
  case (Suc m)
  then have lt: "i < n" by (simp add: word_less_nat_alt)
  then have "unat (i + 1) = Suc (unat i)" by (rule unat_word_succ)
  with Suc.hyps(2) have m: "m = unat n - unat (i + 1)" by simp
  from write_channels_stereo_faults [OF slot_lt Suc.prems, of samples wp i i]
  show ?case
  proof
    assume "write_channels ad samples ((wp + i) mod kRingBufferFrames) i 2 0 = Inl SamplesOutOfBounds"
    then show ?thesis using lt by (simp add: write_frames.simps [of ad _ _ _ _ i])
  next
    assume "\<exists>ad'. write_channels ad samples ((wp + i) mod kRingBufferFrames) i 2 0 = Inr ad' \<and>
      length ad' = 8192"
    then obtain ad' where
      "write_channels ad samples ((wp + i) mod kRingBufferFrames) i 2 0 = Inr ad'"
      "length ad' = 8192" by blast
    with Suc.hyps(1) [OF m this(2)] lt show ?thesis
      by (simp add: write_frames.simps [of ad _ _ _ _ i])
  qed
qed

lemma read_frames_stereo_faults:
  assumes "length ad = 8192"
  shows "read_frames samples ad rp n 2 i \<noteq> Inl AudioDataOutOfBounds"
proof (induction "unat n - unat i" arbitrary: i samples)
  case 0
  then have "\<not> i < n" by (simp add: word_less_nat_alt)
  then show ?case by (simp add: read_frames.simps [of _ _ _ _ _ i])
next
  case (Suc m)
  then have lt: "i < n" by (simp add: word_less_nat_alt)
  then have "unat (i + 1) = Suc (unat i)" by (rule unat_word_succ)
  with Suc.hyps(2) have m: "m = unat n - unat (i + 1)" by simp
  from read_channels_stereo_faults [OF slot_lt assms, of samples rp i i]
  show ?case
  proof
    assume "read_channels samples ad ((rp + i) mod kRingBufferFrames) i 2 0 = Inl SamplesOutOfBounds"
    then show ?thesis using lt by (simp add: read_frames.simps [of samples _ _ _ _ i])
  next
    assume "\<exists>samples'. read_channels samples ad ((rp + i) mod kRingBufferFrames) i 2 0 = Inr samples'"
    then obtain samples' where
      "read_channels samples ad ((rp + i) mod kRingBufferFrames) i 2 0 = Inr samples'" by blast
    with Suc.hyps(1) [OF m] lt show ?thesis
      by (simp add: read_frames.simps [of samples _ _ _ _ i])
  qed
qed

lemma zero_fill_faults: "zero_fill samples bound i \<noteq> Inl AudioDataOutOfBounds"
proof (induction "unat bound - unat i" arbitrary: i samples)
  case 0
  then have "\<not> i < bound" by (simp add: word_less_nat_alt)
  then show ?case by (simp add: zero_fill.simps [of _ _ i])
next
  case (Suc m)
  then have lt: "i < bound" by (simp add: word_less_nat_alt)
  then have "unat (i + 1) = Suc (unat i)" by (rule unat_word_succ)
  with Suc.hyps(2) have m: "m = unat bound - unat (i + 1)" by simp
  from Suc.hyps(1) [OF m] lt show ?case
    by (simp add: zero_fill.simps [of samples _ i])
qed

lemma read_underrun_nowrap:
  assumes "availableToRead s < n" and "unat n * unat (channels s) \<le> length samples"
    and "unat n * unat (channels s) < 2 ^ 64"
  shows "read s samples n =
    Inr (False, replicate (unat n * unat (channels s)) 0 @
                drop (unat n * unat (channels s)) samples, s)"
proof -
  have "unat (n * ucast (channels s)) = unat n * unat (channels s)"
    using assms(3) unat_mult_lem [of n "ucast (channels s)"] by (simp add: unat_ucast_32_64)
  then show ?thesis
    using assms(1,2) by (simp add: read_def zero_fill_result)
qed

subsection \<open>The initial state and long runs\<close>

lemma ring_inv_init: "length storage = 8192 \<Longrightarrow> ring_inv (SharedAudioBuffer_init storage)"
  by (simp add: ring_inv_def layout_ok_def SharedAudioBuffer_init_def availableToRead_def
      kRingBufferFrames_def kChannels_def)

lemma word_le_of_diff: "unat (w - r) \<le> unat w \<Longrightarrow> r \<le> w" for w r :: "64 word"
proof -
  assume "unat (w - r) \<le> unat w"
  then have "w - r \<le> w" by (simp add: word_le_nat_alt)
  then have "w - (w - r) \<le> w" by (rule word_sub_le)
  then show ?thesis by simp
qed

lemma run_append:
  "run s (xs @ ys) =
     (case run s xs of
        Inl e \<Rightarrow> Inl e
      | Inr (tr, s') \<Rightarrow>
          (case run s' ys of
             Inl e \<Rightarrow> Inl e
           | Inr (tr', s'') \<Rightarrow> Inr (tr @ tr', s'')))"
  by (induction xs arbitrary: s) (auto split: sum.splits)

lemma full_write_accepted:
  assumes "ring_inv s" and "availableToRead s = 0"
  shows "\<exists>s'. write_sab s (replicate 8192 0) 4096 = Inr (True, s') \<and> ring_inv s' \<and>
    availableToRead s' = 4096 \<and> writeIndex s' = writeIndex s + 4096"
proof -
  have "\<not> availableToWrite s < 4096"
    using assms(2) by (simp add: availableToWrite_def availableToRead_def kRingBufferFrames_def)
  moreover have "unat (4096::64 word) * 2 \<le> length (replicate 8192 (0::sample))" by simp
  ultimately obtain s' where
    "write_sab s (replicate 8192 0) 4096 = Inr (True, s')" "ring_inv s'"
    "writeIndex s' = writeIndex s + 4096" "readIndex s' = readIndex s"
    using write_sab_pending [OF assms(1), of 4096 "replicate 8192 0"] by blast
  moreover from this assms(2) have "availableToRead s' = 4096"
    by (simp add: availableToRead_def)
  ultimately show ?thesis by blast
qed

lemma wrap_round_effect:
  assumes "ring_inv s" and "availableToRead s = 0"
  shows "\<exists>tr s'. run s wrap_round = Inr (tr, s') \<and> ring_inv s' \<and>
    availableToRead s' = 0 \<and> writeIndex s' = writeIndex s + 4096"
proof -
  from full_write_accepted [OF assms] obtain s1 where
    w: "write_sab s (replicate 8192 0) 4096 = Inr (True, s1)" and inv1: "ring_inv s1" and
    a1: "availableToRead s1 = 4096" and w1: "writeIndex s1 = writeIndex s + 4096"
    by blast
  have "\<not> availableToRead s1 < 4096" by (simp add: a1)
  moreover have "unat (4096::64 word) * 2 \<le> length (replicate 8192 (0::sample))" by simp
  ultimately obtain dest s2 where
    r: "read s1 (replicate 8192 0) 4096 = Inr (True, dest, s2)" and inv2: "ring_inv s2" and
    w2: "writeIndex s2 = writeIndex s1" and r2: "readIndex s2 = readIndex s1 + 4096"
    using read_pending [OF inv1, of 4096 "replicate 8192 0"] by blast
  have "writeIndex s1 = readIndex s1 + 4096"
    using writeIndex_split [of s1] by (simp add: a1)
  then have "availableToRead s2 = 0"
    by (simp add: availableToRead_def w2 r2)
  with w r inv2 w1 w2 show ?thesis
    by (simp add: wrap_round_def)
qed

lemma wrap_rounds_effect:
  assumes "ring_inv s" and "availableToRead s = 0"
  shows "\<exists>tr s'. run s (concat (replicate k wrap_round)) = Inr (tr, s') \<and> ring_inv s' \<and>
    availableToRead s' = 0 \<and> writeIndex s' = writeIndex s + 4096 * of_nat k"
  using assms
proof (induction k arbitrary: s)
  case 0
  then show ?case by simp
next
  case (Suc k)
  from wrap_round_effect [OF Suc.prems] obtain tr1 s1 where
    r1: "run s wrap_round = Inr (tr1, s1)" and inv1: "ring_inv s1" and
    a1: "availableToRead s1 = 0" and w1: "writeIndex s1 = writeIndex s + 4096"
    by blast
  from Suc.IH [OF inv1 a1] obtain tr2 s2 where
    r2: "run s1 (concat (replicate k wrap_round)) = Inr (tr2, s2)" and inv2: "ring_inv s2" and
    a2: "availableToRead s2 = 0" and w2: "writeIndex s2 = writeIndex s1 + 4096 * of_nat k"
    by blast
  have "run s (concat (replicate (Suc k) wrap_round)) = Inr (tr1 @ tr2, s2)"
    by (simp add: run_append r1 r2)
  moreover have "writeIndex s2 = writeIndex s + 4096 * of_nat (Suc k)"
    by (simp add: w2 w1 algebra_simps)
  ultimately show ?case using inv2 a2 by blast
qed

subsection \<open>The connection manager and the callback\<close>

lemma tryReconnect_connected:
  "buffer_field r \<noteq> nullptr \<Longrightarrow> tryReconnect r os fds = (True, r, fds)"
  by (simp add: tryReconnect_def)

lemma tryReconnect_fails:
  assumes "buffer_field r = nullptr" and "fd_field r = - 1" and "attempt_fails os"
  shows "tryReconnect r os fds = (False, r, fds)"
proof (cases "shm_open_ret os = - 1")
  case True
  with assms(1,2) show ?thesis by (simp add: tryReconnect_def)
next
  case False
  with assms(3) have "mmap_ret os = MapFails" by (simp add: attempt_fails_def)
  with False assms(1,2) show ?thesis by (simp add: tryReconnect_def Let_def)
qed

lemma tryReconnect_succeeds:
  assumes "buffer_field r = nullptr" and "shm_open_ret os \<noteq> - 1" and "mmap_ret os = MapsAt a"
  shows "tryReconnect r os fds =
    (True, r\<lparr>fd_field := shm_open_ret os, buffer_field := Mapped a\<rparr>, shm_open_ret os # fds)"
  using assms by (simp add: tryReconnect_def Let_def)

lemma tryReconnect_each_fails:
  assumes "buffer_field r = nullptr" and "fd_field r = - 1" and "list_all attempt_fails oss"
  shows "tryReconnect_each r fds oss = (replicate (length oss) False, r, fds)"
  using assms(3)
  by (induction oss) (simp_all add: tryReconnect_fails [OF assms(1,2)])

lemma tryReconnect_each_connected:
  assumes "buffer_field r \<noteq> nullptr"
  shows "tryReconnect_each r fds oss = (replicate (length oss) True, r, fds)"
  by (induction oss) (simp_all add: tryReconnect_connected [OF assms])

lemma tryReconnect_each_append:
  "tryReconnect_each r fds (xs @ ys) =
     (case tryReconnect_each r fds xs of
        (oks, r', fds') \<Rightarrow>
          (case tryReconnect_each r' fds' ys of
             (oks', r'', fds'') \<Rightarrow> (oks @ oks', r'', fds'')))"
  by (induction xs arbitrary: r fds) (simp_all split: prod.splits)

text \<open>
  The constructor never leaves \<^verbatim>\<open>MAP_FAILED\<close> in \<^verbatim>\<open>buffer_\<close>, and leaves \<^verbatim>\<open>fd_\<close> at -1
  whenever \<^verbatim>\<open>buffer_\<close> is null; \<^verbatim>\<open>tryReconnect\<close> keeps both.
\<close>

lemma SharedMemoryReader_new_state:
  "buffer_field (fst (SharedMemoryReader_new os fds)) \<noteq> MAP_FAILED \<and>
   (buffer_field (fst (SharedMemoryReader_new os fds)) = nullptr \<longrightarrow>
      fd_field (fst (SharedMemoryReader_new os fds)) = - 1)"
  by (cases "mmap_ret os") (simp_all add: SharedMemoryReader_new_def Let_def)

lemma tryReconnect_state:
  assumes "buffer_field r \<noteq> MAP_FAILED" and "buffer_field r = nullptr \<longrightarrow> fd_field r = - 1"
  shows "buffer_field (fst (snd (tryReconnect r os fds))) \<noteq> MAP_FAILED \<and>
   (buffer_field (fst (snd (tryReconnect r os fds))) = nullptr \<longrightarrow>
      fd_field (fst (snd (tryReconnect r os fds))) = - 1)"
  using assms by (cases "mmap_ret os") (auto simp: tryReconnect_def Let_def)

lemma tryReconnect_pointer:
  "buffer_field (fst (snd (tryReconnect r os fds))) \<noteq> MAP_FAILED" if "buffer_field r \<noteq> MAP_FAILED"
  using that by (cases "mmap_ret os") (simp_all add: tryReconnect_def Let_def)

lemma reconnect_if_unmapped_pointer:
  assumes "buffer_field r \<noteq> MAP_FAILED"
  shows "buffer_field (fst (reconnect_if_unmapped r os fds)) \<noteq> MAP_FAILED"
  using assms tryReconnect_pointer [OF assms, of os fds]
  by (simp add: reconnect_if_unmapped_def)

lemma unat_numSamples: "unat (ucast (numSamples_of bytesCount) :: 64 word) = unat bytesCount div 8"
proof -
  define q :: "64 word" where "q = ucast bytesCount div 4 div ucast ChannelCount"
  have q: "unat q = unat bytesCount div 8"
    by (simp add: q_def ChannelCount_def unat_div unat_ucast_32_64 div_mult2_eq [symmetric])
  have "unat bytesCount < 2 ^ 32" using unsigned_less [of bytesCount] by simp
  then have small: "unat q < 2 ^ 32" using q by simp
  have "unat (ucast q :: 32 word) = unat q"
    using small by (simp add: unsigned_ucast_eq take_bit_nat_eq_self)
  then show ?thesis
    by (simp add: numSamples_of_def q_def [symmetric] unat_ucast_32_64 q)
qed

lemma memset_zero_result:
  "unat bytesCount \<le> length samples * 4 \<Longrightarrow>
   memset_zero samples bytesCount = Inr (zero_bytes samples (unat bytesCount))"
  by (simp add: memset_zero_def)

lemma drop_past:
  assumes "k \<le> m" and "drop k xs = drop k ys"
  shows "drop m xs = drop m ys"
proof -
  have "drop m xs = drop (m - k) (drop k xs)" using assms(1) by simp
  also have "\<dots> = drop (m - k) (drop k ys)" by (simp only: assms(2))
  also have "\<dots> = drop m ys" using assms(1) by simp
  finally show ?thesis .
qed

lemma take_pending:
  assumes "n \<le> availableToRead s"
  shows "take (unat n * 2) (pending s) =
    map (frame_sample (audioData s) (readIndex s)) [0..<unat n * 2]"
proof -
  from assms have "unat n \<le> unat (availableToRead s)" by (simp add: word_le_nat_alt)
  then show ?thesis by (simp add: pending_def take_map min_def)
qed

subsection \<open>Clearing bytes\<close>

text \<open>
  Byte \<open>i\<close> of a float is \<open>ucast (drop_bit (8 * i) x)\<close>. Clearing the \<open>k\<close> low-order bytes
  zeroes the bytes below \<open>k\<close> and keeps the others; this carries over to the array.
\<close>

lemma clear_low_bytes_low:
  "i < k \<Longrightarrow> (ucast (drop_bit (8 * i) (clear_low_bytes k x)) :: 8 word) = 0"
  by (rule bit_word_eqI) (auto simp: clear_low_bytes_def bit_simps)

lemma clear_low_bytes_high:
  "k \<le> i \<Longrightarrow>
   (ucast (drop_bit (8 * i) (clear_low_bytes k x)) :: 8 word) = ucast (drop_bit (8 * i) x)"
  by (rule bit_word_eqI) (auto simp: clear_low_bytes_def bit_simps dest: bit_imp_le_length)

lemma zero_bytes_whole: "b mod 4 = 0 \<Longrightarrow> zero_bytes xs b = replicate (b div 4) 0 @ drop (b div 4) xs"
  by (simp add: zero_bytes_def Let_def)

lemma zero_bytes_part:
  "b mod 4 \<noteq> 0 \<Longrightarrow>
   zero_bytes xs b =
     replicate (b div 4) 0 @ clear_low_bytes (b mod 4) (xs ! (b div 4)) # drop (Suc (b div 4)) xs"
  by (simp add: zero_bytes_def Let_def)

lemma length_zero_bytes:
  assumes "b \<le> length xs * 4"
  shows "length (zero_bytes xs b) = length xs"
proof (cases "b mod 4 = 0")
  case True
  with assms show ?thesis by (simp add: zero_bytes_whole)
next
  case False
  with assms have "b div 4 < length xs" by presburger
  with False show ?thesis by (simp add: zero_bytes_part)
qed

lemma zero_bytes_nth_low: "i < b div 4 \<Longrightarrow> zero_bytes xs b ! i = 0"
  by (cases "b mod 4 = 0") (simp_all add: zero_bytes_whole zero_bytes_part nth_append)

lemma zero_bytes_nth_part:
  "b mod 4 \<noteq> 0 \<Longrightarrow> zero_bytes xs b ! (b div 4) = clear_low_bytes (b mod 4) (xs ! (b div 4))"
  by (simp add: zero_bytes_part nth_append)

lemma zero_bytes_nth_high:
  assumes "b \<le> length xs * 4" and "(b + 3) div 4 \<le> i"
  shows "zero_bytes xs b ! i = xs ! i"
proof (cases "b mod 4 = 0")
  case True
  with assms have "b div 4 \<le> i" "b div 4 \<le> length xs" by presburger+
  with True show ?thesis by (simp add: zero_bytes_whole nth_append)
next
  case False
  with assms have "Suc (b div 4) \<le> i" "Suc (b div 4) \<le> length xs" by presburger+
  with False show ?thesis by (simp add: zero_bytes_part nth_append nth_Cons')
qed

lemma take_zero_bytes: "m \<le> b div 4 \<Longrightarrow> take m (zero_bytes xs b) = replicate m 0"
  by (cases "b mod 4 = 0") (simp_all add: zero_bytes_whole zero_bytes_part min_def)

lemma drop_zero_bytes:
  assumes "b \<le> length xs * 4"
  shows "drop ((b + 3) div 4) (zero_bytes xs b) = drop ((b + 3) div 4) xs"
proof (rule nth_equalityI)
  show "length (drop ((b + 3) div 4) (zero_bytes xs b)) = length (drop ((b + 3) div 4) xs)"
    by (simp add: length_zero_bytes [OF assms])
next
  fix i assume "i < length (drop ((b + 3) div 4) (zero_bytes xs b))"
  then have i: "(b + 3) div 4 + i < length xs" by (simp add: length_zero_bytes [OF assms])
  then show "drop ((b + 3) div 4) (zero_bytes xs b) ! i = drop ((b + 3) div 4) xs ! i"
    by (simp add: length_zero_bytes [OF assms] zero_bytes_nth_high [OF assms])
qed

lemma same_float_below:
  fixes j b qj qb rj rb :: nat
  assumes "j < b" and "\<not> qj < qb" and "j = 4 * qj + rj" and "b = 4 * qb + rb"
    and "rj < 4" and "rb < 4"
  shows "qj = qb \<and> rj < rb"
  using assms by linarith

lemma same_float_above:
  fixes j b qj qb rj rb c rc :: nat
  assumes "b \<le> j" and "\<not> c \<le> qj" and "j = 4 * qj + rj" and "b = 4 * qb + rb"
    and "rj < 4" and "rb < 4" and "b + 3 = 4 * c + rc" and "rc < 4"
  shows "qj = qb \<and> rb \<le> rj \<and> rb \<noteq> 0"
proof -
  have "c \<le> qb + 1" using assms(4,6,7) by linarith
  moreover have "qb \<le> qj" using assms(1,3,4,5) by linarith
  ultimately have eq: "qj = qb" and c: "c = qb + 1" using assms(2) by linarith+
  with assms show ?thesis by linarith
qed

lemma byte_at_zero_bytes_silent:
  assumes "j < b"
  shows "byte_at (zero_bytes xs b) j = 0"
proof (cases "j div 4 < b div 4")
  case True
  then show ?thesis by (simp add: byte_at_def zero_bytes_nth_low)
next
  case False
  from same_float_below [OF assms False, of "j mod 4" "b mod 4"]
  have eq: "j div 4 = b div 4" and lt: "j mod 4 < b mod 4" by simp_all
  then have "b mod 4 \<noteq> 0" by simp
  then show ?thesis
    by (simp add: byte_at_def eq zero_bytes_nth_part clear_low_bytes_low [OF lt])
qed

lemma byte_at_zero_bytes_rest:
  assumes "b \<le> length xs * 4" and "b \<le> j"
  shows "byte_at (zero_bytes xs b) j = byte_at xs j"
proof (cases "(b + 3) div 4 \<le> j div 4")
  case True
  then show ?thesis by (simp add: byte_at_def zero_bytes_nth_high [OF assms(1)])
next
  case False
  from same_float_above [OF assms(2) False, of "j mod 4" "b div 4" "b mod 4" "(b + 3) mod 4"]
  have eq: "j div 4 = b div 4" and le: "b mod 4 \<le> j mod 4" and "b mod 4 \<noteq> 0"
    by simp_all
  then show ?thesis
    by (simp add: byte_at_def eq zero_bytes_nth_part clear_low_bytes_high [OF le])
qed

lemma zero_bytes_after_fill:
  assumes "b \<le> length xs * 4" and "m \<le> b div 4"
  shows "zero_bytes (replicate m 0 @ drop m xs) b = zero_bytes xs b"
proof -
  from assms have m: "m \<le> length xs" by presburger
  have d: "drop k (replicate m 0 @ drop m xs) = drop k xs" if "m \<le> k" for k
    using that m by simp
  show ?thesis
  proof (cases "b mod 4 = 0")
    case True
    then show ?thesis using assms(2) by (simp add: zero_bytes_whole d)
  next
    case False
    with assms have "b div 4 < length xs" by presburger
    then have "(replicate m 0 @ drop m xs) ! (b div 4) = xs ! (b div 4)"
      using assms(2) m by (simp add: nth_append)
    with False show ?thesis using assms(2) by (simp add: zero_bytes_part d)
  qed
qed

subsection \<open>Concrete runs\<close>

text \<open>
  The model computes. Three frames \<open>(1,1), (2,2), (3,3)\<close> are written to a fresh buffer,
  two are read back, and a second read of two finds one frame and returns silence; a
  round trip started at counter \<open>2 ^ 64 - 1\<close> crosses both the end of the storage and the
  wrap of the counter; the callback hands the two oldest frames to the host.
\<close>

lemmas loop_unfold = write_channels.simps write_frames.simps zero_fill.simps
  read_channels.simps read_frames.simps

lemmas model_unfold = write_sab_def read_def availableToWrite_def availableToRead_def
  SharedAudioBuffer_init_def kRingBufferFrames_def kChannels_def kSampleRate_def Let_def

lemma scenario_write:
  "write_sab (SharedAudioBuffer_init (replicate 8192 0)) [1, 1, 2, 2, 3, 3] 3 =
   Inr (True, (SharedAudioBuffer_init (replicate 8192 0))
        \<lparr>audioData := (replicate 8192 0)[0 := 1, 1 := 1, 2 := 2, 3 := 2, 4 := 3, 5 := 3],
         writeIndex := 3\<rparr>)"
  by (simp add: model_unfold loop_unfold)

lemma scenario_read:
  "read ((SharedAudioBuffer_init (replicate 8192 0))
        \<lparr>audioData := (replicate 8192 0)[0 := 1, 1 := 1, 2 := 2, 3 := 2, 4 := 3, 5 := 3],
         writeIndex := 3\<rparr>) [9, 9, 9, 9] 2 =
   Inr (True, [1, 1, 2, 2], (SharedAudioBuffer_init (replicate 8192 0))
        \<lparr>audioData := (replicate 8192 0)[0 := 1, 1 := 1, 2 := 2, 3 := 2, 4 := 3, 5 := 3],
         writeIndex := 3, readIndex := 2\<rparr>)"
  by (simp add: model_unfold loop_unfold)

lemma scenario_run:
  "run (SharedAudioBuffer_init (replicate 8192 0))
     [Write [1, 1, 2, 2, 3, 3] 3, Read [9, 9, 9, 9] 2, Read [9, 9, 9, 9] 2] =
   Inr ([(Write [1, 1, 2, 2, 3, 3] 3, WriteRet True),
         (Read [9, 9, 9, 9] 2, ReadRet True [1, 1, 2, 2]),
         (Read [9, 9, 9, 9] 2, ReadRet False [0, 0, 0, 0])],
        (SharedAudioBuffer_init (replicate 8192 0))
        \<lparr>audioData := (replicate 8192 0)[0 := 1, 1 := 1, 2 := 2, 3 := 2, 4 := 3, 5 := 3],
         writeIndex := 3, readIndex := 2\<rparr>)"
  by (simp add: model_unfold loop_unfold)

lemma wrap_run:
  "run ((SharedAudioBuffer_init (replicate 8192 0))
         \<lparr>writeIndex := 0xFFFFFFFFFFFFFFFF, readIndex := 0xFFFFFFFFFFFFFFFF\<rparr>)
     [Write [1, 2, 3, 4] 2, Read [9, 9, 9, 9] 2] =
   Inr ([(Write [1, 2, 3, 4] 2, WriteRet True),
         (Read [9, 9, 9, 9] 2, ReadRet True [1, 2, 3, 4])],
        (SharedAudioBuffer_init (replicate 8192 0))
        \<lparr>audioData := (replicate 8192 0)[8190 := 1, 8191 := 2, 0 := 3, 1 := 4],
         writeIndex := 1, readIndex := 1\<rparr>)"
  by (simp add: model_unfold loop_unfold)

lemma scenario_callback:
  "OnReadClientInput \<lparr>fd_field = 5, buffer_field = Mapped 4096\<rparr>
       \<lparr>shm_open_ret = - 1, mmap_ret = MapFails\<rparr> [5]
       ((SharedAudioBuffer_init (replicate 8192 0))
        \<lparr>audioData := (replicate 8192 0)[0 := 1, 1 := 1, 2 := 2, 3 := 2, 4 := 3, 5 := 3],
         writeIndex := 3, isActive := True\<rparr>) [9, 9, 9, 9] 16 =
     Inr ([1, 1, 2, 2],
          (SharedAudioBuffer_init (replicate 8192 0))
          \<lparr>audioData := (replicate 8192 0)[0 := 1, 1 := 1, 2 := 2, 3 := 2, 4 := 3, 5 := 3],
           writeIndex := 3, isActive := True, readIndex := 2\<rparr>,
          \<lparr>fd_field = 5, buffer_field = Mapped 4096\<rparr>, [5])"
  by (simp add: OnReadClientInput_def reconnect_if_unmapped_def numSamples_of_def ChannelCount_def
      model_unfold loop_unfold)

lemma replicate_4: "replicate 4 x = [x, x, x, x]"
proof -
  have "(4::nat) = Suc (Suc (Suc (Suc 0)))" by simp
  then show ?thesis by (simp only: replicate.simps)
qed

lemma zero_bytes_18: "zero_bytes [9, 9, 9, 9, 16909060] 18 = [0, 0, 0, 0, 16908288]"
  by (simp add: zero_bytes_def Let_def clear_low_bytes_def replicate_4)

lemma memset_zero_7: "memset_zero [9, 16909060] 7 = Inr [0, 16777216]"
proof -
  have "replicate (Suc 0) (0::sample) = [0]" by simp
  then show ?thesis
    by (simp add: memset_zero_def zero_bytes_def Let_def clear_low_bytes_def)
qed

lemma zero_bytes_16: "zero_bytes [9, 9, 9, 9] 16 = [0, 0, 0, 0]"
  by (simp add: zero_bytes_def Let_def replicate_4)

lemma numSamples_of_16: "ucast (numSamples_of 16) = (2::64 word)"
  by (simp add: numSamples_of_def ChannelCount_def)

lemma numSamples_of_18: "ucast (numSamples_of 18) = (2::64 word)"
  by (simp add: numSamples_of_def ChannelCount_def)

section \<open>Claims about the ring buffer\<close>

text \<open>
  C1. Round trip. From any state that satisfies the ring invariant (the initial state
  does), every sequence of \<^verbatim>\<open>write\<close> and \<^verbatim>\<open>read\<close> calls whose arrays hold the frames
  they announce runs without a fault, and the samples pending at the start followed by
  all samples that accepted writes took in are exactly the samples that successful reads
  handed out followed by the samples still pending at the end: same values, same order,
  nothing lost, repeated or invented. A rejected write and an underrun read contribute
  nothing. The slot of a frame is its counter modulo the capacity, so this covers every
  pattern that crosses the end of the storage, and also a wrap of the 64-bit counters.
\<close>

theorem round_trip_stream:
  assumes "ring_inv s" and "list_all buffer_ok calls"
  shows "\<exists>tr s'. run s calls = Inr (tr, s') \<and>
    pending s @ written tr = delivered tr @ pending s'"
  using run_effect [OF assms] by blast

text \<open>
  An instance that starts at counter \<open>2 ^ 64 - 1\<close>, slot 4095: two frames are written
  across the end of the storage and read back.
\<close>

theorem round_trip_stream_witness:
  "ring_inv ((SharedAudioBuffer_init (replicate 8192 0))
       \<lparr>writeIndex := 0xFFFFFFFFFFFFFFFF, readIndex := 0xFFFFFFFFFFFFFFFF\<rparr>) \<and>
   list_all buffer_ok [Write [1, 2, 3, 4] 2, Read [9, 9, 9, 9] 2] \<and>
   (\<exists>tr s'. run ((SharedAudioBuffer_init (replicate 8192 0))
         \<lparr>writeIndex := 0xFFFFFFFFFFFFFFFF, readIndex := 0xFFFFFFFFFFFFFFFF\<rparr>)
       [Write [1, 2, 3, 4] 2, Read [9, 9, 9, 9] 2] = Inr (tr, s') \<and>
     pending ((SharedAudioBuffer_init (replicate 8192 0))
         \<lparr>writeIndex := 0xFFFFFFFFFFFFFFFF, readIndex := 0xFFFFFFFFFFFFFFFF\<rparr>) @ written tr =
       delivered tr @ pending s' \<and>
     written tr = [1, 2, 3, 4] \<and> delivered tr = [1, 2, 3, 4])"
proof -
  let ?s = "(SharedAudioBuffer_init (replicate 8192 0))
       \<lparr>writeIndex := 0xFFFFFFFFFFFFFFFF, readIndex := 0xFFFFFFFFFFFFFFFF\<rparr>"
  let ?calls = "[Write [1, 2, 3, 4] 2, Read [9, 9, 9, 9] 2]"
  have inv: "ring_inv ?s"
    by (simp add: ring_inv_def layout_ok_def model_unfold)
  have ok: "list_all buffer_ok ?calls" by simp
  from round_trip_stream [OF inv ok] obtain tr s' where
    r: "run ?s ?calls = Inr (tr, s')" and
    str: "pending ?s @ written tr = delivered tr @ pending s'" by blast
  from r have "tr = [(Write [1, 2, 3, 4] 2, WriteRet True),
         (Read [9, 9, 9, 9] 2, ReadRet True [1, 2, 3, 4])]"
    by (simp only: wrap_run) simp
  then have "written tr = [1, 2, 3, 4]" "delivered tr = [1, 2, 3, 4]" by simp_all
  with inv ok r str show ?thesis by blast
qed

text \<open>
  C2. Write success. In a buffer with the declared layout, a write of
  \<open>frameCount \<le> kRingBufferFrames\<close> frames from an array that holds them, in a state
  where \<^verbatim>\<open>availableToWrite()\<close> is at least \<open>frameCount\<close>, returns true; afterwards
  \<^verbatim>\<open>writeIndex\<close> is advanced by \<open>frameCount\<close> and \<^verbatim>\<open>availableToRead()\<close> is its prior value
  plus \<open>frameCount\<close>, as 64-bit values, and as numbers whenever the prior value was
  within the capacity.
\<close>

theorem write_success:
  assumes "layout_ok s" and "frameCount \<le> kRingBufferFrames"
    and "frameCount \<le> availableToWrite s" and "unat frameCount * 2 \<le> length samples"
  shows "\<exists>s'. write_sab s samples frameCount = Inr (True, s') \<and>
    writeIndex s' = writeIndex s + frameCount \<and>
    availableToRead s' = availableToRead s + frameCount \<and>
    (availableToRead s \<le> kRingBufferFrames \<longrightarrow>
       unat (availableToRead s') = unat (availableToRead s) + unat frameCount)"
proof -
  have n: "unat frameCount \<le> 4096"
    using assms(2) by (simp add: word_le_nat_alt kRingBufferFrames_def)
  have full: "\<not> availableToWrite s < frameCount" using assms(3) by simp
  from write_sab_accepted [OF assms(1) full n assms(4)] obtain ad' where
    res: "write_sab s samples frameCount =
      Inr (True, s\<lparr>audioData := ad', writeIndex := writeIndex s + frameCount\<rparr>)"
    by blast
  define s' where "s' = s\<lparr>audioData := ad', writeIndex := writeIndex s + frameCount\<rparr>"
  have av: "availableToRead s' = availableToRead s + frameCount"
    by (simp add: s'_def availableToRead_def)
  have "unat (availableToRead s') = unat (availableToRead s) + unat frameCount"
    if "availableToRead s \<le> kRingBufferFrames"
    using room_nat [OF that full] unat_add_lem [of "availableToRead s" frameCount]
    by (simp add: av)
  with res av show ?thesis
    by (intro exI [of _ s']) (simp add: s'_def [symmetric], simp add: s'_def)
qed

theorem write_success_witness:
  "layout_ok ((SharedAudioBuffer_init (replicate 8192 0))\<lparr>writeIndex := 5000, readIndex := 1000\<rparr>) \<and>
   (96::64 word) \<le> kRingBufferFrames \<and>
   96 \<le> availableToWrite
     ((SharedAudioBuffer_init (replicate 8192 0))\<lparr>writeIndex := 5000, readIndex := 1000\<rparr>) \<and>
   unat (96::64 word) * 2 \<le> length (replicate 192 (7::sample)) \<and>
   availableToRead
     ((SharedAudioBuffer_init (replicate 8192 0))\<lparr>writeIndex := 5000, readIndex := 1000\<rparr>)
     \<le> kRingBufferFrames \<and>
   (\<exists>s'. write_sab
        ((SharedAudioBuffer_init (replicate 8192 0))\<lparr>writeIndex := 5000, readIndex := 1000\<rparr>)
        (replicate 192 7) 96 = Inr (True, s') \<and>
      writeIndex s' = 5096 \<and> availableToRead s' = 4096 \<and>
      unat (availableToRead s') = 4000 + 96)"
  using write_success
    [of "(SharedAudioBuffer_init (replicate 8192 0))\<lparr>writeIndex := 5000, readIndex := 1000\<rparr>"
      96 "replicate 192 7"]
  by (simp add: layout_ok_def model_unfold)

text \<open>
  C3. Overflow atomicity. A write of more frames than \<^verbatim>\<open>availableToWrite()\<close> reports
  returns false and hands back the buffer exactly as it was: both indices, the flag,
  the metadata and every stored sample. No hypothesis on the state, the source array or
  the frame count is needed, since the call returns before any access.
\<close>

theorem write_overflow_unchanged:
  "availableToWrite s < frameCount \<Longrightarrow> write_sab s samples frameCount = Inr (False, s)"
  by (simp add: write_sab_def)

theorem write_overflow_unchanged_witness:
  "availableToWrite ((SharedAudioBuffer_init (replicate 8192 0))\<lparr>writeIndex := 5000, readIndex := 1000\<rparr>) < 97 \<and>
   write_sab ((SharedAudioBuffer_init (replicate 8192 0))\<lparr>writeIndex := 5000, readIndex := 1000\<rparr>)
     (replicate 194 1) 97 =
   Inr (False, (SharedAudioBuffer_init (replicate 8192 0))\<lparr>writeIndex := 5000, readIndex := 1000\<rparr>)"
  using write_overflow_unchanged
    [of "(SharedAudioBuffer_init (replicate 8192 0))\<lparr>writeIndex := 5000, readIndex := 1000\<rparr>" 97
      "replicate 194 1"]
  by (simp add: availableToWrite_def SharedAudioBuffer_init_def kRingBufferFrames_def)

text \<open>
  C4. Underrun policy. A read of more frames than \<^verbatim>\<open>availableToRead()\<close> reports, into
  a destination that holds \<open>frameCount * channels\<close> floats, returns false, leaves the
  first \<open>frameCount * channels\<close> floats of the destination zero and the rest of it as it
  was, and hands back the buffer unchanged, \<^verbatim>\<open>readIndex\<close> included. The destination is an
  array of a 64-bit address space, so the product the loop bound computes does not wrap.
  Nothing is assumed about the state.
\<close>

theorem read_underrun_silence:
  assumes "availableToRead s < frameCount"
    and "unat frameCount * unat (channels s) \<le> length samples"
    and "length samples < 2 ^ 64"
  shows "read s samples frameCount =
    Inr (False, replicate (unat frameCount * unat (channels s)) 0 @
                drop (unat frameCount * unat (channels s)) samples, s)"
  using assms by (rule read_underrun_result)

theorem read_underrun_silence_witness:
  "availableToRead ((SharedAudioBuffer_init (replicate 8192 0))\<lparr>writeIndex := 3, readIndex := 2\<rparr>) < 2 \<and>
   unat (2::64 word) *
     unat (channels ((SharedAudioBuffer_init (replicate 8192 0))\<lparr>writeIndex := 3, readIndex := 2\<rparr>))
     \<le> length [9, 9, 9, 9, 9 :: sample] \<and>
   length [9, 9, 9, 9, 9 :: sample] < 2 ^ 64 \<and>
   read ((SharedAudioBuffer_init (replicate 8192 0))\<lparr>writeIndex := 3, readIndex := 2\<rparr>)
     [9, 9, 9, 9, 9] 2 =
   Inr (False, [0, 0, 0, 0, 9],
        (SharedAudioBuffer_init (replicate 8192 0))\<lparr>writeIndex := 3, readIndex := 2\<rparr>)"
proof -
  let ?s = "(SharedAudioBuffer_init (replicate 8192 0))\<lparr>writeIndex := 3, readIndex := 2\<rparr>"
  have a: "availableToRead ?s < 2" by (simp add: model_unfold)
  have b: "unat (2::64 word) * unat (channels ?s) \<le> length [9, 9, 9, 9, 9 :: sample]"
    by (simp add: model_unfold)
  have c: "length [9, 9, 9, 9, 9 :: sample] < 2 ^ 64" by simp
  have "unat (2::64 word) * unat (channels ?s) = Suc (Suc (Suc (Suc 0)))"
    by (simp add: model_unfold)
  then have "replicate (unat (2::64 word) * unat (channels ?s)) 0 @
      drop (unat (2::64 word) * unat (channels ?s)) [9, 9, 9, 9, 9] = [0, 0, 0, 0, 9 :: sample]"
    by (simp only: replicate.simps drop_Suc_Cons drop_0 append.simps)
  with read_underrun_silence [OF a b c] a b c show ?thesis by (simp only:)
qed

text \<open>
  C5, as amended. From the initial state, every sequence of calls whose arrays hold the
  frames they announce runs without a fault and ends in a state where the difference
  \<^verbatim>\<open>writeIndex - readIndex\<close>, taken in 64-bit arithmetic as the source takes it, is at
  most the capacity, so \<^verbatim>\<open>availableToRead()\<close> is at most the capacity; and
  \<^verbatim>\<open>readIndex \<le> writeIndex\<close> holds as long as fewer than \<open>2 ^ 64\<close> frames have been accepted
  by writes in total.
\<close>

theorem counters_bounded:
  assumes "length storage = 8192" and "list_all buffer_ok calls"
  shows "\<exists>tr s. run (SharedAudioBuffer_init storage) calls = Inr (tr, s) \<and>
    writeIndex s - readIndex s \<le> kRingBufferFrames \<and>
    availableToRead s \<le> kRingBufferFrames \<and>
    (frames_written tr < 2 ^ 64 \<longrightarrow> readIndex s \<le> writeIndex s)"
proof -
  from run_effect [OF ring_inv_init [OF assms(1)] assms(2)] obtain tr s where
    r: "run (SharedAudioBuffer_init storage) calls = Inr (tr, s)" and inv: "ring_inv s" and
    w: "unat (writeIndex s) = frames_written tr mod 2 ^ 64" and
    a: "unat (availableToRead s) \<le> frames_written tr"
    by (auto simp: SharedAudioBuffer_init_def availableToRead_def)
  have cap: "availableToRead s \<le> kRingBufferFrames" using inv by (simp add: ring_inv_def)
  have "readIndex s \<le> writeIndex s" if "frames_written tr < 2 ^ 64"
  proof (rule word_le_of_diff)
    from that w have "unat (writeIndex s) = frames_written tr" by simp
    with a show "unat (writeIndex s - readIndex s) \<le> unat (writeIndex s)"
      by (simp add: availableToRead_def)
  qed
  with r cap show ?thesis
    by (intro exI [of _ tr] exI [of _ s]) (simp add: availableToRead_def)
qed

theorem counters_bounded_witness:
  "length (replicate 8192 (0::sample)) = 8192 \<and>
   list_all buffer_ok [Write [1, 1, 2, 2, 3, 3] 3, Read [9, 9, 9, 9] 2, Read [9, 9, 9, 9] 2] \<and>
   (\<exists>tr s. run (SharedAudioBuffer_init (replicate 8192 0))
        [Write [1, 1, 2, 2, 3, 3] 3, Read [9, 9, 9, 9] 2, Read [9, 9, 9, 9] 2] = Inr (tr, s) \<and>
      writeIndex s - readIndex s \<le> kRingBufferFrames \<and>
      availableToRead s \<le> kRingBufferFrames \<and>
      frames_written tr < 2 ^ 64 \<and> readIndex s \<le> writeIndex s)"
proof -
  let ?calls = "[Write [1, 1, 2, 2, 3, 3] 3, Read [9, 9, 9, 9] 2, Read [9, 9, 9, 9] 2]"
  have len: "length (replicate 8192 (0::sample)) = 8192" by simp
  have ok: "list_all buffer_ok ?calls" by simp
  from counters_bounded [OF len ok] obtain tr s where
    r: "run (SharedAudioBuffer_init (replicate 8192 0)) ?calls = Inr (tr, s)" and
    b: "writeIndex s - readIndex s \<le> kRingBufferFrames"
      "availableToRead s \<le> kRingBufferFrames" and
    o: "frames_written tr < 2 ^ 64 \<longrightarrow> readIndex s \<le> writeIndex s"
    by blast
  from r have "tr = [(Write [1, 1, 2, 2, 3, 3] 3, WriteRet True),
         (Read [9, 9, 9, 9] 2, ReadRet True [1, 1, 2, 2]),
         (Read [9, 9, 9, 9] 2, ReadRet False [0, 0, 0, 0])]"
    by (simp only: scenario_run) simp
  then have "frames_written tr < 2 ^ 64" by simp
  with len ok r b o show ?thesis by blast
qed

text \<open>
  The claim as stated, \<^verbatim>\<open>writeIndex >= readIndex\<close> after every sequence, fails once the
  64-bit \<^verbatim>\<open>writeIndex\<close> wraps: after \<open>2 ^ 52 - 1\<close> rounds of writing and reading a full
  buffer both counters stand at \<open>2 ^ 64 - 4096\<close>, and one more accepted write of 4096
  frames takes \<^verbatim>\<open>writeIndex\<close> to 0 while \<^verbatim>\<open>readIndex\<close> stays.
\<close>

theorem counters_wrap_counterexample:
  "list_all buffer_ok wrap_calls \<and>
   indices_after (SharedAudioBuffer_init (replicate 8192 0)) wrap_calls =
     Some (0, 0xFFFFFFFFFFFFF000) \<and>
   \<not> (0xFFFFFFFFFFFFF000 :: 64 word) \<le> 0"
proof -
  let ?s = "SharedAudioBuffer_init (replicate 8192 0)"
  have inv: "ring_inv ?s" by (rule ring_inv_init) simp
  have a: "availableToRead ?s = 0" by (simp add: availableToRead_def SharedAudioBuffer_init_def)
  from wrap_rounds_effect [OF inv a, of "2 ^ 52 - 1"] obtain tr1 s1 where
    r1: "run ?s (concat (replicate (2 ^ 52 - 1) wrap_round)) = Inr (tr1, s1)" and
    inv1: "ring_inv s1" and a1: "availableToRead s1 = 0" and
    w1: "writeIndex s1 = writeIndex ?s + 4096 * of_nat (2 ^ 52 - 1)"
    by blast
  have "(4096 :: 64 word) * of_nat (2 ^ 52 - 1) = 0xFFFFFFFFFFFFF000" by simp
  with w1 have w1': "writeIndex s1 = 0xFFFFFFFFFFFFF000"
    by (simp add: SharedAudioBuffer_init_def)
  with a1 have rd1: "readIndex s1 = 0xFFFFFFFFFFFFF000"
    by (simp add: availableToRead_def)
  from full_write_accepted [OF inv1 a1] obtain s2 where
    wr: "write_sab s1 (replicate 8192 0) 4096 = Inr (True, s2)" and
    a2: "availableToRead s2 = 4096" and w2: "writeIndex s2 = writeIndex s1 + 4096"
    by blast
  from w2 w1' have w2': "writeIndex s2 = 0" by simp
  with a2 have "readIndex s2 = 0xFFFFFFFFFFFFF000"
    using rd1 wr by (auto simp: write_sab_def Let_def split: if_splits sum.splits)
  with w2' r1 wr have "indices_after ?s wrap_calls = Some (0, 0xFFFFFFFFFFFFF000)"
    by (simp add: indices_after_def wrap_calls_def run_append)
  moreover have "list_all buffer_ok wrap_calls"
    by (simp add: wrap_calls_def wrap_round_def list_all_iff)
  moreover have "\<not> (0xFFFFFFFFFFFFF000 :: 64 word) \<le> 0" by simp
  ultimately show ?thesis by blast
qed

text \<open>
  C9. Single-writer frame condition. A \<^verbatim>\<open>write\<close> that returns leaves \<^verbatim>\<open>readIndex\<close>,
  \<^verbatim>\<open>isActive\<close>, \<^verbatim>\<open>sampleRate\<close>, \<^verbatim>\<open>channels\<close> and \<^verbatim>\<open>bufferFrames\<close> as they were; a
  \<^verbatim>\<open>read\<close> that returns leaves \<^verbatim>\<open>writeIndex\<close>, the stored samples and the same four
  fields as they were. \<^verbatim>\<open>availableToRead\<close> and \<^verbatim>\<open>availableToWrite\<close> are const member
  functions; in the embedding they are functions from the buffer to a number and
  return no buffer, so they change nothing.
\<close>

theorem single_writer_frame:
  "(write_sab s samples frameCount = Inr (ok, s') \<longrightarrow>
      readIndex s' = readIndex s \<and> isActive s' = isActive s \<and> sampleRate s' = sampleRate s \<and>
      channels s' = channels s \<and> bufferFrames s' = bufferFrames s) \<and>
   (read s dest frameCount = Inr (ok', dest', s'') \<longrightarrow>
      writeIndex s'' = writeIndex s \<and> audioData s'' = audioData s \<and>
      isActive s'' = isActive s \<and> sampleRate s'' = sampleRate s \<and>
      channels s'' = channels s \<and> bufferFrames s'' = bufferFrames s)"
proof -
  have "readIndex s' = readIndex s \<and> isActive s' = isActive s \<and> sampleRate s' = sampleRate s \<and>
      channels s' = channels s \<and> bufferFrames s' = bufferFrames s"
    if "write_sab s samples frameCount = Inr (ok, s')"
    using that by (auto simp: write_sab_def Let_def split: if_splits sum.splits)
  moreover have "writeIndex s'' = writeIndex s \<and> audioData s'' = audioData s \<and>
      isActive s'' = isActive s \<and> sampleRate s'' = sampleRate s \<and>
      channels s'' = channels s \<and> bufferFrames s'' = bufferFrames s"
    if "read s dest frameCount = Inr (ok', dest', s'')"
    using that by (auto simp: read_def Let_def split: if_splits sum.splits)
  ultimately show ?thesis by blast
qed

theorem single_writer_frame_witness:
  "write_sab (SharedAudioBuffer_init (replicate 8192 0)) [1, 1, 2, 2, 3, 3] 3 =
     Inr (True, (SharedAudioBuffer_init (replicate 8192 0))
        \<lparr>audioData := (replicate 8192 0)[0 := 1, 1 := 1, 2 := 2, 3 := 2, 4 := 3, 5 := 3],
         writeIndex := 3\<rparr>) \<and>
   readIndex ((SharedAudioBuffer_init (replicate 8192 0))
        \<lparr>audioData := (replicate 8192 0)[0 := 1, 1 := 1, 2 := 2, 3 := 2, 4 := 3, 5 := 3],
         writeIndex := 3\<rparr>) = readIndex (SharedAudioBuffer_init (replicate 8192 0)) \<and>
   channels ((SharedAudioBuffer_init (replicate 8192 0))
        \<lparr>audioData := (replicate 8192 0)[0 := 1, 1 := 1, 2 := 2, 3 := 2, 4 := 3, 5 := 3],
         writeIndex := 3\<rparr>) = channels (SharedAudioBuffer_init (replicate 8192 0)) \<and>
   read ((SharedAudioBuffer_init (replicate 8192 0))
        \<lparr>audioData := (replicate 8192 0)[0 := 1, 1 := 1, 2 := 2, 3 := 2, 4 := 3, 5 := 3],
         writeIndex := 3\<rparr>) [9, 9, 9, 9] 2 =
     Inr (True, [1, 1, 2, 2], (SharedAudioBuffer_init (replicate 8192 0))
        \<lparr>audioData := (replicate 8192 0)[0 := 1, 1 := 1, 2 := 2, 3 := 2, 4 := 3, 5 := 3],
         writeIndex := 3, readIndex := 2\<rparr>) \<and>
   writeIndex ((SharedAudioBuffer_init (replicate 8192 0))
        \<lparr>audioData := (replicate 8192 0)[0 := 1, 1 := 1, 2 := 2, 3 := 2, 4 := 3, 5 := 3],
         writeIndex := 3, readIndex := 2\<rparr>) =
     writeIndex ((SharedAudioBuffer_init (replicate 8192 0))
        \<lparr>audioData := (replicate 8192 0)[0 := 1, 1 := 1, 2 := 2, 3 := 2, 4 := 3, 5 := 3],
         writeIndex := 3\<rparr>)"
proof -
  let ?s0 = "SharedAudioBuffer_init (replicate 8192 0)"
  let ?s1 = "?s0\<lparr>audioData := (replicate 8192 0)[0 := 1, 1 := 1, 2 := 2, 3 := 2, 4 := 3, 5 := 3],
         writeIndex := 3\<rparr>"
  let ?s2 = "?s0\<lparr>audioData := (replicate 8192 0)[0 := 1, 1 := 1, 2 := 2, 3 := 2, 4 := 3, 5 := 3],
         writeIndex := 3, readIndex := 2\<rparr>"
  note w = scenario_write and r = scenario_read
  from single_writer_frame [of ?s0 "[1, 1, 2, 2, 3, 3]" 3 True ?s1] w
  have "readIndex ?s1 = readIndex ?s0" "channels ?s1 = channels ?s0" by blast+
  moreover from single_writer_frame [of ?s1 _ 2 _ _ "[9, 9, 9, 9]" True "[1, 1, 2, 2]" ?s2] r
  have "writeIndex ?s2 = writeIndex ?s1" by blast
  ultimately show ?thesis using w r by blast
qed

text \<open>
  C10. In-bounds storage access. In a buffer whose \<^verbatim>\<open>channels\<close> field holds
  \<^verbatim>\<open>kChannels\<close> and whose storage has the declared size, the index the source computes
  for any counter \<open>pos\<close>, any loop index \<open>i\<close> and any channel below \<^verbatim>\<open>channels\<close> is inside
  \<^verbatim>\<open>audioData\<close>, however large the counters are; and no \<^verbatim>\<open>write\<close> or \<^verbatim>\<open>read\<close>, whatever
  its arguments, stops with an access outside \<^verbatim>\<open>audioData\<close>.
\<close>

theorem storage_access_in_bounds:
  assumes "layout_ok s"
  shows "(\<forall>pos i ch. ch < channels s \<longrightarrow>
       unat ((pos + i) mod kRingBufferFrames * ucast (channels s) + ucast ch)
         < length (audioData s)) \<and>
    write_sab s samples frameCount \<noteq> Inl AudioDataOutOfBounds \<and>
    read s dest frameCount' \<noteq> Inl AudioDataOutOfBounds"
proof -
  from assms have lay: "channels s = 2" "length (audioData s) = 8192"
    by (simp_all add: layout_okD)
  have "unat ((pos + i) mod kRingBufferFrames * ucast (channels s) + ucast ch) < length (audioData s)"
    if "ch < channels s" for pos i :: "64 word" and ch
  proof -
    have idx: "unat ((pos + i) mod kRingBufferFrames) < 4096" by (rule slot_lt)
    from that lay(1) have ch: "unat (ucast ch :: 64 word) < 2"
      by (simp add: word_less_nat_alt unat_ucast_32_64)
    from idx have twice: "unat ((pos + i) mod kRingBufferFrames * 2) =
        unat ((pos + i) mod kRingBufferFrames) * 2"
      by (simp add: unat_twice)
    with idx ch have "unat ((pos + i) mod kRingBufferFrames * 2 + ucast ch) =
        unat ((pos + i) mod kRingBufferFrames) * 2 + unat (ucast ch :: 64 word)"
      using unat_add_lem [of "(pos + i) mod kRingBufferFrames * 2" "ucast ch"] by simp
    with idx ch show ?thesis by (simp add: lay)
  qed
  moreover have "write_sab s samples frameCount \<noteq> Inl AudioDataOutOfBounds"
    using write_frames_stereo_faults [OF lay(2), of samples "writeIndex s" frameCount 0]
    by (auto simp: write_sab_def lay(1) Let_def split: sum.splits)
  moreover have "read s dest frameCount' \<noteq> Inl AudioDataOutOfBounds"
    using read_frames_stereo_faults [OF lay(2), of dest "readIndex s" frameCount' 0]
      zero_fill_faults [of dest "frameCount' * ucast (channels s)" 0]
    by (auto simp: read_def lay(1) Let_def split: sum.splits)
  ultimately show ?thesis by blast
qed

theorem storage_access_in_bounds_witness:
  "layout_ok ((SharedAudioBuffer_init (replicate 8192 0))
      \<lparr>writeIndex := 0xFFFFFFFFFFFFFFFF, readIndex := 0xFFFFFFFFFFFFF000\<rparr>) \<and>
   1 < channels ((SharedAudioBuffer_init (replicate 8192 0))
      \<lparr>writeIndex := 0xFFFFFFFFFFFFFFFF, readIndex := 0xFFFFFFFFFFFFF000\<rparr>) \<and>
   unat ((0xFFFFFFFFFFFFFFFF + 4095) mod kRingBufferFrames *
        ucast (channels ((SharedAudioBuffer_init (replicate 8192 0))
          \<lparr>writeIndex := 0xFFFFFFFFFFFFFFFF, readIndex := 0xFFFFFFFFFFFFF000\<rparr>)) + ucast (1::32 word))
     < length (audioData ((SharedAudioBuffer_init (replicate 8192 0))
          \<lparr>writeIndex := 0xFFFFFFFFFFFFFFFF, readIndex := 0xFFFFFFFFFFFFF000\<rparr>)) \<and>
   write_sab ((SharedAudioBuffer_init (replicate 8192 0))
      \<lparr>writeIndex := 0xFFFFFFFFFFFFFFFF, readIndex := 0xFFFFFFFFFFFFF000\<rparr>) [1, 2] 1
     \<noteq> Inl AudioDataOutOfBounds \<and>
   read ((SharedAudioBuffer_init (replicate 8192 0))
      \<lparr>writeIndex := 0xFFFFFFFFFFFFFFFF, readIndex := 0xFFFFFFFFFFFFF000\<rparr>) (replicate 8190 9) 4095
     \<noteq> Inl AudioDataOutOfBounds"
proof -
  let ?s = "(SharedAudioBuffer_init (replicate 8192 0))
      \<lparr>writeIndex := 0xFFFFFFFFFFFFFFFF, readIndex := 0xFFFFFFFFFFFFF000\<rparr>"
  have lay: "layout_ok ?s" by (simp add: layout_ok_def model_unfold)
  have ch: "1 < channels ?s" by (simp add: model_unfold)
  from storage_access_in_bounds [OF lay, of "[1, 2]" 1 "replicate 8190 9" 4095] lay ch
  show ?thesis by blast
qed

section \<open>Claims about the connection manager and the callback\<close>

text \<open>
  C6. Liveness gating. The reader holds a null pointer or a mapping, and the destination
  holds the \<open>bytesCount\<close> bytes announced. If, after the reconnect attempt that an
  unmapped reader makes, the buffer is still not mapped, or the mapped buffer's
  \<^verbatim>\<open>isActive\<close> is false, then the callback returns with every one of the first
  \<open>bytesCount\<close> bytes of the destination zero, so its first \<open>bytesCount div 4\<close> floats are
  zero, and with every later byte as it was; and it hands back the shared buffer
  unchanged: \<^verbatim>\<open>read\<close> is not called and \<^verbatim>\<open>readIndex\<close> stays, whatever
  \<^verbatim>\<open>availableToRead()\<close> is.
\<close>

theorem liveness_gating:
  assumes "buffer_field r \<noteq> MAP_FAILED" and "unat bytesCount \<le> length samples * 4"
    and "reconnect_if_unmapped r os fds = (r', fds')"
    and "\<not> isActive shm \<or> buffer_field r' = nullptr"
  shows "\<exists>dest. OnReadClientInput r os fds shm samples bytesCount = Inr (dest, shm, r', fds') \<and>
    dest = zero_bytes samples (unat bytesCount) \<and>
    length dest = length samples \<and>
    take (unat bytesCount div 4) dest = replicate (unat bytesCount div 4) 0 \<and>
    (\<forall>j. j < unat bytesCount \<longrightarrow> byte_at dest j = 0) \<and>
    (\<forall>j. unat bytesCount \<le> j \<and> j < length samples * 4 \<longrightarrow>
       byte_at dest j = byte_at samples j)"
proof -
  from reconnect_if_unmapped_pointer [OF assms(1), of os fds] assms(3)
  have "buffer_field r' \<noteq> MAP_FAILED" by simp
  with assms(3,4) have "OnReadClientInput r os fds shm samples bytesCount =
      Inr (zero_bytes samples (unat bytesCount), shm, r', fds')"
    by (auto simp: OnReadClientInput_def memset_zero_result [OF assms(2)])
  then show ?thesis
    by (simp add: length_zero_bytes [OF assms(2)] take_zero_bytes byte_at_zero_bytes_silent
        byte_at_zero_bytes_rest [OF assms(2)])
qed

text \<open>
  Two instances: a mapped buffer that holds three unread frames and is not active, with
  a destination of 18 bytes inside five floats, where the fifth float loses its two
  low-order bytes and keeps the upper two; and an active buffer behind a reader whose
  reconnect attempt fails.
\<close>

theorem liveness_gating_witness:
  "buffer_field \<lparr>fd_field = 5, buffer_field = Mapped 4096\<rparr> \<noteq> MAP_FAILED \<and>
   unat (18::32 word) \<le> length [9, 9, 9, 9, 16909060 :: sample] * 4 \<and>
   reconnect_if_unmapped \<lparr>fd_field = 5, buffer_field = Mapped 4096\<rparr>
       \<lparr>shm_open_ret = - 1, mmap_ret = MapFails\<rparr> [5] =
     (\<lparr>fd_field = 5, buffer_field = Mapped 4096\<rparr>, [5]) \<and>
   \<not> isActive ((SharedAudioBuffer_init (replicate 8192 0))\<lparr>writeIndex := 3\<rparr>) \<and>
   0 < availableToRead ((SharedAudioBuffer_init (replicate 8192 0))\<lparr>writeIndex := 3\<rparr>) \<and>
   OnReadClientInput \<lparr>fd_field = 5, buffer_field = Mapped 4096\<rparr>
       \<lparr>shm_open_ret = - 1, mmap_ret = MapFails\<rparr> [5]
       ((SharedAudioBuffer_init (replicate 8192 0))\<lparr>writeIndex := 3\<rparr>)
       [9, 9, 9, 9, 16909060] 18 =
     Inr ([0, 0, 0, 0, 16908288], (SharedAudioBuffer_init (replicate 8192 0))\<lparr>writeIndex := 3\<rparr>,
          \<lparr>fd_field = 5, buffer_field = Mapped 4096\<rparr>, [5]) \<and>
   byte_at [0, 0, 0, 0, 16908288] 17 = 0 \<and>
   byte_at [0, 0, 0, 0, 16908288] 18 = byte_at [9, 9, 9, 9, 16909060] 18 \<and>
   reconnect_if_unmapped \<lparr>fd_field = - 1, buffer_field = nullptr\<rparr>
       \<lparr>shm_open_ret = - 1, mmap_ret = MapFails\<rparr> [] =
     (\<lparr>fd_field = - 1, buffer_field = nullptr\<rparr>, []) \<and>
   OnReadClientInput \<lparr>fd_field = - 1, buffer_field = nullptr\<rparr>
       \<lparr>shm_open_ret = - 1, mmap_ret = MapFails\<rparr> []
       ((SharedAudioBuffer_init (replicate 8192 0))\<lparr>writeIndex := 3, isActive := True\<rparr>)
       [9, 9, 9, 9] 16 =
     Inr ([0, 0, 0, 0],
          (SharedAudioBuffer_init (replicate 8192 0))\<lparr>writeIndex := 3, isActive := True\<rparr>,
          \<lparr>fd_field = - 1, buffer_field = nullptr\<rparr>, [])"
proof -
  let ?mapped = "\<lparr>fd_field = 5, buffer_field = Mapped 4096\<rparr>"
  let ?unmapped = "\<lparr>fd_field = - 1, buffer_field = nullptr\<rparr>"
  let ?os = "\<lparr>shm_open_ret = - 1, mmap_ret = MapFails\<rparr>"
  let ?idle = "(SharedAudioBuffer_init (replicate 8192 0))\<lparr>writeIndex := 3\<rparr>"
  let ?live = "(SharedAudioBuffer_init (replicate 8192 0))\<lparr>writeIndex := 3, isActive := True\<rparr>"
  have p1: "buffer_field ?mapped \<noteq> MAP_FAILED" and p2: "buffer_field ?unmapped \<noteq> MAP_FAILED"
    by simp_all
  have fit18: "unat (18::32 word) \<le> length [9, 9, 9, 9, 16909060 :: sample] * 4" by simp
  have fit16: "unat (16::32 word) \<le> length [9, 9, 9, 9 :: sample] * 4" by simp
  have u18: "unat (18::32 word) = 18" and u16: "unat (16::32 word) = 16" by simp_all
  have rc1: "reconnect_if_unmapped ?mapped ?os [5] = (?mapped, [5])"
    by (simp add: reconnect_if_unmapped_def)
  have rc2: "reconnect_if_unmapped ?unmapped ?os [] = (?unmapped, [])"
    by (simp add: reconnect_if_unmapped_def tryReconnect_def)
  have idle: "\<not> isActive ?idle" "0 < availableToRead ?idle"
    by (simp_all add: model_unfold)
  have "\<not> isActive ?idle \<or> buffer_field ?mapped = nullptr" using idle by simp
  from liveness_gating [OF p1 fit18 rc1 this]
  have a: "OnReadClientInput ?mapped ?os [5] ?idle [9, 9, 9, 9, 16909060] 18 =
      Inr ([0, 0, 0, 0, 16908288], ?idle, ?mapped, [5])"
    and a17: "byte_at [0, 0, 0, 0, 16908288] 17 = 0"
    and a18: "byte_at [0, 0, 0, 0, 16908288] 18 = byte_at [9, 9, 9, 9, 16909060] 18"
    by (simp_all only: u18 zero_bytes_18) simp_all
  have "\<not> isActive ?live \<or> buffer_field ?unmapped = nullptr" by simp
  from liveness_gating [OF p2 fit16 rc2 this]
  have b: "OnReadClientInput ?unmapped ?os [] ?live [9, 9, 9, 9] 16 =
      Inr ([0, 0, 0, 0], ?live, ?unmapped, [])"
    by (simp only: u16 zero_bytes_16) simp
  from p1 fit18 rc1 idle a a17 a18 rc2 b show ?thesis by blast
qed

text \<open>
  C7. Total real-time path. With a shared buffer of the declared layout, a reader that
  holds a null pointer or a mapping, and a destination that holds the \<open>bytesCount\<close> bytes
  announced, the callback always returns, with no fault, and the destination keeps its
  length. When the buffer is mapped, active and holds \<open>bytesCount div 8\<close> frames, the
  first \<open>bytesCount div 8\<close> stereo frames of the destination are the oldest pending frames
  of the ring, the rest of the destination is as it was, and \<^verbatim>\<open>readIndex\<close> is advanced
  by that many frames. In every other case (not mapped, not active, underrun) the
  shared buffer is unchanged and the destination is the one \<^verbatim>\<open>memset\<close> leaves: every one
  of its first \<open>bytesCount\<close> bytes is zero, so those frames are silence. In no case is a
  float past the first \<open>bytesCount\<close> bytes touched.
\<close>

theorem callback_total:
  assumes "layout_ok shm" and "buffer_field r \<noteq> MAP_FAILED"
    and "unat bytesCount \<le> length samples * 4"
  shows "\<exists>samples' shm'.
    OnReadClientInput r os fds shm samples bytesCount =
      Inr (samples', shm', reconnect_if_unmapped r os fds) \<and>
    length samples' = length samples \<and>
    (if buffer_field (fst (reconnect_if_unmapped r os fds)) \<noteq> nullptr \<and> isActive shm \<and>
        ucast (numSamples_of bytesCount) \<le> availableToRead shm
     then shm' = shm\<lparr>readIndex := readIndex shm + ucast (numSamples_of bytesCount)\<rparr> \<and>
          take (unat bytesCount div 8 * 2) samples' =
            take (unat bytesCount div 8 * 2) (pending shm) \<and>
          drop (unat bytesCount div 8 * 2) samples' = drop (unat bytesCount div 8 * 2) samples
     else shm' = shm \<and> samples' = zero_bytes samples (unat bytesCount) \<and>
          take (unat bytesCount div 8 * 2) samples' = replicate (unat bytesCount div 8 * 2) 0 \<and>
          (\<forall>j. j < unat bytesCount \<longrightarrow> byte_at samples' j = 0)) \<and>
    drop ((unat bytesCount + 3) div 4) samples' = drop ((unat bytesCount + 3) div 4) samples"
proof -
  define n :: "64 word" where "n = ucast (numSamples_of bytesCount)"
  define b where "b = unat bytesCount"
  have nf: "unat n = b div 8" by (simp add: n_def b_def unat_numSamples)
  have fit: "unat n * 2 \<le> b div 4" unfolding nf by presburger
  have up: "unat n * 2 \<le> (b + 3) div 4" unfolding nf by presburger
  have hold: "b \<le> length samples * 4" using assms(3) by (simp add: b_def)
  have room: "unat n * 2 \<le> length samples" using fit hold by linarith
  have "unat bytesCount < 2 ^ 32" using unsigned_less [of bytesCount] by simp
  then have small: "unat n < 2 ^ 32" by (simp add: nf b_def)
  obtain r1 fds1 where rc: "reconnect_if_unmapped r os fds = (r1, fds1)"
    by (cases "reconnect_if_unmapped r os fds")
  from reconnect_if_unmapped_pointer [OF assms(2), of os fds] rc
  have ptr: "buffer_field r1 \<noteq> MAP_FAILED" by simp
  from assms(1) have ch: "unat (channels shm) = 2" by (simp add: layout_okD)
  have silence: "length (zero_bytes samples b) = length samples"
    "take (unat n * 2) (zero_bytes samples b) = replicate (unat n * 2) 0"
    "\<And>j. j < b \<Longrightarrow> byte_at (zero_bytes samples b) j = 0"
    "drop ((b + 3) div 4) (zero_bytes samples b) = drop ((b + 3) div 4) samples"
    by (simp_all add: length_zero_bytes [OF hold] take_zero_bytes [OF fit]
        byte_at_zero_bytes_silent drop_zero_bytes [OF hold])
  consider (silent) "buffer_field r1 = nullptr \<or> \<not> isActive shm"
    | (underrun) "buffer_field r1 \<noteq> nullptr" "isActive shm" "availableToRead shm < n"
    | (data) "buffer_field r1 \<noteq> nullptr" "isActive shm" "\<not> availableToRead shm < n"
    by blast
  then show ?thesis
  proof cases
    case silent
    then have "OnReadClientInput r os fds shm samples bytesCount =
        Inr (zero_bytes samples b, shm, r1, fds1)"
      using ptr rc assms(3)
      by (auto simp: OnReadClientInput_def memset_zero_result b_def)
    with silence silent show ?thesis
      by (auto simp: rc nf b_def [symmetric] n_def [symmetric])
  next
    case underrun
    have rd: "read shm samples n =
        Inr (False, replicate (unat n * 2) 0 @ drop (unat n * 2) samples, shm)"
      using read_underrun_nowrap [OF underrun(3), of samples] room small by (simp add: ch)
    define z where "z = replicate (unat n * 2) (0::sample) @ drop (unat n * 2) samples"
    have lz: "length z = length samples" using room by (simp add: z_def)
    have "memset_zero z bytesCount = Inr (zero_bytes z b)"
      using assms(3) lz by (simp add: memset_zero_result b_def)
    moreover have "zero_bytes z b = zero_bytes samples b"
      unfolding z_def by (rule zero_bytes_after_fill [OF hold fit])
    ultimately have "OnReadClientInput r os fds shm samples bytesCount =
        Inr (zero_bytes samples b, shm, r1, fds1)"
      using ptr rc underrun rd
      by (simp add: OnReadClientInput_def n_def [symmetric] z_def [symmetric])
    with silence underrun show ?thesis
      by (auto simp: rc nf b_def [symmetric] n_def [symmetric])
  next
    case data
    have "unat n \<le> 2 ^ 63" using small by simp
    from read_delivers [OF assms(1) data(3) this room] obtain samples' where
      rd: "read shm samples n = Inr (True, samples', shm\<lparr>readIndex := readIndex shm + n\<rparr>)" and
      len: "length samples' = length samples" and
      got: "take (unat n * 2) samples' =
        map (frame_sample (audioData shm) (readIndex shm)) [0..<unat n * 2]" and
      rest: "drop (unat n * 2) samples' = drop (unat n * 2) samples"
      by blast
    have "OnReadClientInput r os fds shm samples bytesCount =
        Inr (samples', shm\<lparr>readIndex := readIndex shm + n\<rparr>, r1, fds1)"
      using ptr rc data rd by (simp add: OnReadClientInput_def n_def [symmetric])
    moreover have "take (unat n * 2) samples' = take (unat n * 2) (pending shm)"
      using data(3) by (simp add: got take_pending)
    moreover have "drop ((b + 3) div 4) samples' = drop ((b + 3) div 4) samples"
      by (rule drop_past [OF up rest])
    ultimately show ?thesis
      using data len rest by (auto simp: rc nf b_def [symmetric] n_def [symmetric])
  qed
qed

text \<open>
  Two instances: a read that succeeds, and an underrun with a destination of 18 bytes
  inside five floats.
\<close>

theorem callback_total_witness:
  "layout_ok ((SharedAudioBuffer_init (replicate 8192 0))
        \<lparr>audioData := (replicate 8192 0)[0 := 1, 1 := 1, 2 := 2, 3 := 2, 4 := 3, 5 := 3],
         writeIndex := 3, isActive := True\<rparr>) \<and>
   buffer_field \<lparr>fd_field = 5, buffer_field = Mapped 4096\<rparr> \<noteq> MAP_FAILED \<and>
   unat (16::32 word) \<le> length [9, 9, 9, 9 :: sample] * 4 \<and>
   OnReadClientInput \<lparr>fd_field = 5, buffer_field = Mapped 4096\<rparr>
       \<lparr>shm_open_ret = - 1, mmap_ret = MapFails\<rparr> [5]
       ((SharedAudioBuffer_init (replicate 8192 0))
        \<lparr>audioData := (replicate 8192 0)[0 := 1, 1 := 1, 2 := 2, 3 := 2, 4 := 3, 5 := 3],
         writeIndex := 3, isActive := True\<rparr>) [9, 9, 9, 9] 16 =
     Inr ([1, 1, 2, 2],
          (SharedAudioBuffer_init (replicate 8192 0))
          \<lparr>audioData := (replicate 8192 0)[0 := 1, 1 := 1, 2 := 2, 3 := 2, 4 := 3, 5 := 3],
           writeIndex := 3, isActive := True, readIndex := 2\<rparr>,
          \<lparr>fd_field = 5, buffer_field = Mapped 4096\<rparr>, [5]) \<and>
   take (unat (16::32 word) div 8 * 2)
     (pending ((SharedAudioBuffer_init (replicate 8192 0))
        \<lparr>audioData := (replicate 8192 0)[0 := 1, 1 := 1, 2 := 2, 3 := 2, 4 := 3, 5 := 3],
         writeIndex := 3, isActive := True\<rparr>)) = [1, 1, 2, 2] \<and>
   layout_ok ((SharedAudioBuffer_init (replicate 8192 0))
        \<lparr>writeIndex := 3, readIndex := 2, isActive := True\<rparr>) \<and>
   unat (18::32 word) \<le> length [9, 9, 9, 9, 16909060 :: sample] * 4 \<and>
   OnReadClientInput \<lparr>fd_field = 5, buffer_field = Mapped 4096\<rparr>
       \<lparr>shm_open_ret = - 1, mmap_ret = MapFails\<rparr> [5]
       ((SharedAudioBuffer_init (replicate 8192 0))
        \<lparr>writeIndex := 3, readIndex := 2, isActive := True\<rparr>) [9, 9, 9, 9, 16909060] 18 =
     Inr ([0, 0, 0, 0, 16908288],
          (SharedAudioBuffer_init (replicate 8192 0))
          \<lparr>writeIndex := 3, readIndex := 2, isActive := True\<rparr>,
          \<lparr>fd_field = 5, buffer_field = Mapped 4096\<rparr>, [5]) \<and>
   byte_at [0, 0, 0, 0, 16908288] 17 = 0"
proof -
  let ?r = "\<lparr>fd_field = 5, buffer_field = Mapped 4096\<rparr>"
  let ?os = "\<lparr>shm_open_ret = - 1, mmap_ret = MapFails\<rparr>"
  let ?shm = "(SharedAudioBuffer_init (replicate 8192 0))
        \<lparr>audioData := (replicate 8192 0)[0 := 1, 1 := 1, 2 := 2, 3 := 2, 4 := 3, 5 := 3],
         writeIndex := 3, isActive := True\<rparr>"
  let ?low = "(SharedAudioBuffer_init (replicate 8192 0))
        \<lparr>writeIndex := 3, readIndex := 2, isActive := True\<rparr>"
  have lay: "layout_ok ?shm" and lay': "layout_ok ?low"
    by (simp_all add: layout_ok_def model_unfold)
  have ptr: "buffer_field ?r \<noteq> MAP_FAILED" by simp
  have fit: "unat (16::32 word) \<le> length [9, 9, 9, 9 :: sample] * 4" by simp
  have fit': "unat (18::32 word) \<le> length [9, 9, 9, 9, 16909060 :: sample] * 4" by simp
  have rc: "reconnect_if_unmapped ?r ?os [5] = (?r, [5])"
    by (simp add: reconnect_if_unmapped_def)
  have enough: "ucast (numSamples_of 16) \<le> availableToRead ?shm"
    by (simp add: numSamples_of_16 model_unfold)
  have short: "\<not> ucast (numSamples_of 18) \<le> availableToRead ?low"
    by (simp add: numSamples_of_18 model_unfold word_le_nat_alt)
  from callback_total [OF lay ptr fit, of ?os "[5]"] obtain samples' shm' where
    res: "OnReadClientInput ?r ?os [5] ?shm [9, 9, 9, 9] 16 = Inr (samples', shm', ?r, [5])" and
    tk: "take (unat (16::32 word) div 8 * 2) samples' =
      take (unat (16::32 word) div 8 * 2) (pending ?shm)"
    using enough by (auto simp: rc)
  from res have "samples' = [1, 1, 2, 2]" by (simp only: scenario_callback) simp
  with tk have pend: "take (unat (16::32 word) div 8 * 2) (pending ?shm) = [1, 1, 2, 2]" by simp
  from callback_total [OF lay' ptr fit', of ?os "[5]"] obtain d s' where
    "OnReadClientInput ?r ?os [5] ?low [9, 9, 9, 9, 16909060] 18 = Inr (d, s', ?r, [5])"
    "s' = ?low" "d = zero_bytes [9, 9, 9, 9, 16909060] (unat (18::32 word))"
    "\<forall>j. j < unat (18::32 word) \<longrightarrow> byte_at d j = 0"
    using short by (auto simp: rc)
  then have under: "OnReadClientInput ?r ?os [5] ?low [9, 9, 9, 9, 16909060] 18 =
      Inr ([0, 0, 0, 0, 16908288], ?low, ?r, [5])"
    and silent: "byte_at [0, 0, 0, 0, 16908288] 17 = 0"
    by (simp_all add: zero_bytes_18)
  from lay ptr fit scenario_callback pend lay' fit' under silent show ?thesis by blast
qed

text \<open>
  C8. Reconnect idempotence. On a connected reader \<^verbatim>\<open>tryReconnect\<close> returns true and
  changes neither the reader nor the open descriptors. On a disconnected reader
  (\<^verbatim>\<open>buffer_\<close> null, \<^verbatim>\<open>fd_\<close> -1) a failing attempt returns false and leaves the reader
  and the open descriptors as they were: the pointer stays null, \<^verbatim>\<open>fd_\<close> stays -1, and a
  descriptor opened on the way is closed again. A succeeding attempt returns true and
  stores the descriptor and the mapping. So a run of calls that starts disconnected
  reports false and changes nothing for as long as the attempts fail, connects at the
  first attempt that succeeds, and reports true without any change from then on.
\<close>

theorem reconnect_idempotent:
  "(buffer_field r \<noteq> nullptr \<longrightarrow> tryReconnect r os fds = (True, r, fds)) \<and>
   (buffer_field r = nullptr \<and> fd_field r = - 1 \<and> attempt_fails os \<longrightarrow>
      tryReconnect r os fds = (False, r, fds)) \<and>
   (buffer_field r = nullptr \<and> shm_open_ret os \<noteq> - 1 \<and> mmap_ret os = MapsAt a \<longrightarrow>
      tryReconnect r os fds =
        (True, r\<lparr>fd_field := shm_open_ret os, buffer_field := Mapped a\<rparr>,
         shm_open_ret os # fds)) \<and>
   (buffer_field r = nullptr \<and> fd_field r = - 1 \<and> list_all attempt_fails failing \<and>
    shm_open_ret os \<noteq> - 1 \<and> mmap_ret os = MapsAt a \<longrightarrow>
      tryReconnect_each r fds (failing @ os # later) =
        (replicate (length failing) False @ True # replicate (length later) True,
         r\<lparr>fd_field := shm_open_ret os, buffer_field := Mapped a\<rparr>, shm_open_ret os # fds))"
proof -
  have "tryReconnect_each r fds (failing @ os # later) =
        (replicate (length failing) False @ True # replicate (length later) True,
         r\<lparr>fd_field := shm_open_ret os, buffer_field := Mapped a\<rparr>, shm_open_ret os # fds)"
    if "buffer_field r = nullptr" "fd_field r = - 1" "list_all attempt_fails failing"
      "shm_open_ret os \<noteq> - 1" "mmap_ret os = MapsAt a"
  proof -
    have "buffer_field (r\<lparr>fd_field := shm_open_ret os, buffer_field := Mapped a\<rparr>) \<noteq> nullptr"
      by simp
    from tryReconnect_each_connected [OF this] show ?thesis
      by (simp add: tryReconnect_each_append tryReconnect_each_fails [OF that(1,2,3)]
          tryReconnect_succeeds [OF that(1,4,5)])
  qed
  then show ?thesis
    using tryReconnect_connected tryReconnect_fails tryReconnect_succeeds by blast
qed

theorem reconnect_idempotent_witness:
  "buffer_field \<lparr>fd_field = 5, buffer_field = Mapped 4096\<rparr> \<noteq> nullptr \<and>
   tryReconnect \<lparr>fd_field = 5, buffer_field = Mapped 4096\<rparr>
       \<lparr>shm_open_ret = 6, mmap_ret = MapsAt 8192\<rparr> [5] =
     (True, \<lparr>fd_field = 5, buffer_field = Mapped 4096\<rparr>, [5]) \<and>
   attempt_fails \<lparr>shm_open_ret = 5, mmap_ret = MapFails\<rparr> \<and>
   tryReconnect \<lparr>fd_field = - 1, buffer_field = nullptr\<rparr>
       \<lparr>shm_open_ret = 5, mmap_ret = MapFails\<rparr> [] =
     (False, \<lparr>fd_field = - 1, buffer_field = nullptr\<rparr>, []) \<and>
   tryReconnect \<lparr>fd_field = - 1, buffer_field = nullptr\<rparr>
       \<lparr>shm_open_ret = 5, mmap_ret = MapsAt 4096\<rparr> [] =
     (True, \<lparr>fd_field = 5, buffer_field = Mapped 4096\<rparr>, [5]) \<and>
   list_all attempt_fails
     [\<lparr>shm_open_ret = - 1, mmap_ret = MapFails\<rparr>, \<lparr>shm_open_ret = 5, mmap_ret = MapFails\<rparr>] \<and>
   tryReconnect_each \<lparr>fd_field = - 1, buffer_field = nullptr\<rparr> []
       ([\<lparr>shm_open_ret = - 1, mmap_ret = MapFails\<rparr>, \<lparr>shm_open_ret = 5, mmap_ret = MapFails\<rparr>] @
        \<lparr>shm_open_ret = 5, mmap_ret = MapsAt 4096\<rparr> #
        [\<lparr>shm_open_ret = - 1, mmap_ret = MapFails\<rparr>]) =
     ([False, False, True, True], \<lparr>fd_field = 5, buffer_field = Mapped 4096\<rparr>, [5])"
  using reconnect_idempotent
    [of "\<lparr>fd_field = 5, buffer_field = Mapped 4096\<rparr>" "\<lparr>shm_open_ret = 6, mmap_ret = MapsAt 8192\<rparr>"
      "[5]" 8192 "[]" "[]"]
    reconnect_idempotent
    [of "\<lparr>fd_field = - 1, buffer_field = nullptr\<rparr>" "\<lparr>shm_open_ret = 5, mmap_ret = MapFails\<rparr>"
      "[]" 0 "[]" "[]"]
    reconnect_idempotent
    [of "\<lparr>fd_field = - 1, buffer_field = nullptr\<rparr>" "\<lparr>shm_open_ret = 5, mmap_ret = MapsAt 4096\<rparr>"
      "[]" 4096
      "[\<lparr>shm_open_ret = - 1, mmap_ret = MapFails\<rparr>, \<lparr>shm_open_ret = 5, mmap_ret = MapFails\<rparr>]"
      "[\<lparr>shm_open_ret = - 1, mmap_ret = MapFails\<rparr>]"]
  by (simp add: attempt_fails_def del: tryReconnect_each.simps)

end
